theory Spec2Isabelle
  imports Complex_Main "HOL-Library.Word" "HOL-Library.Multiset"
begin

section \<open>Machine integers of \<open>pi_integral.cpp\<close>\<close>

text \<open>
  \<open>uint64_t n\<close> is a 64-bit word and \<open>unsigned int num_threads\<close> a 32-bit word (the width
  of \<open>unsigned int\<close> on the platforms the program is built for).
  \<open>ucast\<close> is the integral promotion from \<open>unsigned int\<close> to \<open>uint64_t\<close> and, in the other
  direction, the truncating \<open>static_cast<unsigned int>\<close>.
\<close>

type_synonym u64 = "64 word"
type_synonym u32 = "32 word"

section \<open>Reading the arguments: \<open>std::istringstream ss(arg); ss >> v\<close>\<close>

text \<open>
  The extraction of an unsigned integer from a fresh string stream (flags \<open>dec | skipws\<close>,
  classic locale): leading white space is skipped, one sign is accepted, then the longest run of
  decimal digits is read. No digit, or a magnitude above the maximum of the type, sets
  \<open>failbit\<close> (\<open>None\<close>). A leading minus negates the magnitude in the unsigned type, as
  \<open>strtoull\<close> does. Characters after the digits stay in the stream and are not looked at.
\<close>

definition isspace :: "char \<Rightarrow> bool" where
  "isspace c = (c \<in> {CHR '' '', CHR 0x09, CHR 0x0A, CHR 0x0B, CHR 0x0C, CHR 0x0D})"

definition isdigit :: "char \<Rightarrow> bool" where
  "isdigit c = ((48::nat) \<le> of_char c \<and> of_char c \<le> (57::nat))"

definition digit_value :: "char \<Rightarrow> nat" where
  "digit_value c = of_char c - (48::nat)"

definition decimal :: "string \<Rightarrow> nat" where
  "decimal ds = foldl (\<lambda>v c. 10 * v + digit_value c) 0 ds"

definition extract_unsigned :: "nat \<Rightarrow> string \<Rightarrow> nat option" where
  "extract_unsigned maxv s =
     (let s1 = dropWhile isspace s;
          neg = (s1 \<noteq> [] \<and> hd s1 = CHR ''-'');
          s2 = (if s1 \<noteq> [] \<and> (hd s1 = CHR ''-'' \<or> hd s1 = CHR ''+'') then tl s1 else s1);
          ds = takeWhile isdigit s2;
          v = decimal ds
      in if ds = [] then None
         else if maxv < v then None
         else Some (if neg then (maxv + 1 - v) mod (maxv + 1) else v))"

definition extract_u64 :: "string \<Rightarrow> u64 option" where
  "extract_u64 s = map_option of_nat (extract_unsigned (2 ^ 64 - 1) s)"

definition extract_u32 :: "string \<Rightarrow> u32 option" where
  "extract_u32 s = map_option of_nat (extract_unsigned (2 ^ 32 - 1) s)"

section \<open>Clamping the worker count and partitioning \<open>[0, n)\<close>\<close>

text \<open>
  \<^verbatim>\<open>if (num_threads > n) num_threads = static_cast<unsigned int>(std::min<uint64_t>(num_threads, n));\<close>
\<close>

definition clamp_threads :: "u64 \<Rightarrow> u32 \<Rightarrow> u32" where
  "clamp_threads n num_threads =
     (if (ucast num_threads :: u64) > n then ucast (min (ucast num_threads :: u64) n)
      else num_threads)"

definition base_chunk :: "u64 \<Rightarrow> u32 \<Rightarrow> u64" where
  "base_chunk n num_threads = n div ucast num_threads"

definition remainder :: "u64 \<Rightarrow> u32 \<Rightarrow> u64" where
  "remainder n num_threads = n mod ucast num_threads"

definition start_idx :: "u64 \<Rightarrow> u32 \<Rightarrow> u32 \<Rightarrow> u64" where
  "start_idx n num_threads t =
     ucast t * base_chunk n num_threads + min (ucast t) (remainder n num_threads)"

definition chunk_size :: "u64 \<Rightarrow> u32 \<Rightarrow> u32 \<Rightarrow> u64" where
  "chunk_size n num_threads t =
     base_chunk n num_threads + (if ucast t < remainder n num_threads then 1 else 0)"

definition end_idx :: "u64 \<Rightarrow> u32 \<Rightarrow> u32 \<Rightarrow> u64" where
  "end_idx n num_threads t = start_idx n num_threads t + chunk_size n num_threads t"

section \<open>Double-precision operations\<close>

text \<open>
  The program is written over \<open>double\<close>. Its structure (which operations are applied, and in
  which order) is modelled once over a record of operations; the binary64 instance follows
  below. \<open>flit\<close> is the value of a decimal literal and \<open>of_u64\<close> is
  \<open>static_cast<double>\<close> on a \<open>uint64_t\<close>.
\<close>

record 'd float_ops =
  fadd :: "'d \<Rightarrow> 'd \<Rightarrow> 'd"
  fsub :: "'d \<Rightarrow> 'd \<Rightarrow> 'd"
  fmul :: "'d \<Rightarrow> 'd \<Rightarrow> 'd"
  fdiv :: "'d \<Rightarrow> 'd \<Rightarrow> 'd"
  fabs :: "'d \<Rightarrow> 'd"
  of_u64 :: "u64 \<Rightarrow> 'd"
  flit :: "rat \<Rightarrow> 'd"

section \<open>The worker threads\<close>

text \<open>The values captured by the lambda: \<open>[t, start_idx, end_idx, dx, &partial_sums]\<close>.\<close>

record 'd task =
  task_t :: u32
  task_start :: u64
  task_end :: u64
  task_dx :: 'd

definition mk_task :: "u64 \<Rightarrow> u32 \<Rightarrow> 'd \<Rightarrow> u32 \<Rightarrow> 'd task" where
  "mk_task n num_threads dx t =
     \<lparr>task_t = t, task_start = start_idx n num_threads t,
      task_end = end_idx n num_threads t, task_dx = dx\<rparr>"

text \<open>\<^verbatim>\<open>for (unsigned int t = 0; t < num_threads; ++t) { ... threads.emplace_back(...); }\<close>\<close>

function spawn :: "u64 \<Rightarrow> u32 \<Rightarrow> 'd \<Rightarrow> u32 \<Rightarrow> 'd task list" where
  "spawn n num_threads dx t =
     (if t < num_threads then mk_task n num_threads dx t # spawn n num_threads dx (t + 1)
      else [])"
  by pat_completeness auto
termination
proof (relation "measure (\<lambda>(n, num_threads, dx, t). unat num_threads - unat t)")
  show "wf (measure (\<lambda>(n :: u64, num_threads :: u32, dx :: 'd, t :: u32). unat num_threads - unat t))"
    by simp
next
  fix n :: u64 and num_threads t :: u32 and dx :: 'd
  assume "t < num_threads"
  then have "unat num_threads - unat (t + 1) < unat num_threads - unat t"
    by unat_arith
  then show "((n, num_threads, dx, t + 1), (n, num_threads, dx, t))
      \<in> measure (\<lambda>(n, num_threads, dx, t). unat num_threads - unat t)"
    by simp
qed

declare spawn.simps [simp del]

text \<open>
  The body of the inner loop: \<^verbatim>\<open>double x = (static_cast<double>(i) + 0.5) * dx;\<close> and the
  added term \<^verbatim>\<open>4.0 / (1.0 + x * x)\<close>, whose divisor is named \<open>denominator\<close>.
\<close>

definition midpoint :: "'d float_ops \<Rightarrow> 'd \<Rightarrow> u64 \<Rightarrow> 'd" where
  "midpoint A dx i = fmul A (fadd A (of_u64 A i) (flit A (1 / 2))) dx"

definition denominator :: "'d float_ops \<Rightarrow> 'd \<Rightarrow> u64 \<Rightarrow> 'd" where
  "denominator A dx i = (let x = midpoint A dx i in fadd A (flit A 1) (fmul A x x))"

definition integrand :: "'d float_ops \<Rightarrow> 'd \<Rightarrow> u64 \<Rightarrow> 'd" where
  "integrand A dx i = fdiv A (flit A 4) (denominator A dx i)"

text \<open>\<^verbatim>\<open>for (uint64_t i = start_idx; i < end_idx; ++i) { ...; local_sum += 4.0 / (1.0 + x * x); }\<close>\<close>

function local_sum_loop :: "'d float_ops \<Rightarrow> 'd \<Rightarrow> u64 \<Rightarrow> u64 \<Rightarrow> 'd \<Rightarrow> 'd" where
  "local_sum_loop A dx i end_i local_sum =
     (if i < end_i
      then local_sum_loop A dx (i + 1) end_i (fadd A local_sum (integrand A dx i))
      else local_sum)"
  by pat_completeness auto
termination
proof (relation "measure (\<lambda>(A, dx, i, end_i, local_sum). unat end_i - unat i)")
  show "wf (measure (\<lambda>(A :: 'd float_ops, dx :: 'd, i :: u64, end_i :: u64, local_sum :: 'd).
      unat end_i - unat i))"
    by simp
next
  fix A :: "'d float_ops" and dx local_sum :: 'd and i end_i :: u64
  assume "i < end_i"
  then have "unat end_i - unat (i + 1) < unat end_i - unat i"
    by unat_arith
  then show "((A, dx, i + 1, end_i, fadd A local_sum (integrand A dx i)),
      (A, dx, i, end_i, local_sum)) \<in> measure (\<lambda>(A, dx, i, end_i, local_sum). unat end_i - unat i)"
    by simp
qed

declare local_sum_loop.simps [simp del]

definition local_sum :: "'d float_ops \<Rightarrow> 'd task \<Rightarrow> 'd" where
  "local_sum A k = local_sum_loop A (task_dx k) (task_start k) (task_end k) (flit A 0)"

text \<open>
  \<^verbatim>\<open>partial_sums[t] = local_sum;\<close> is the only access of a thread to shared data. An index
  outside the vector is undefined behaviour: \<open>None\<close>.
\<close>

definition thread_body :: "'d float_ops \<Rightarrow> 'd task \<Rightarrow> 'd list \<Rightarrow> 'd list option" where
  "thread_body A k partial_sums =
     (if unat (task_t k) < length partial_sums
      then Some (partial_sums[unat (task_t k) := local_sum A k])
      else None)"

text \<open>
  The threads run concurrently and \<open>join\<close> waits for all of them. Each thread writes shared
  memory once, so an execution is given by the order in which the threads perform that write:
  \<open>join_all\<close> runs the bodies in a given order.
\<close>

fun join_all :: "'d float_ops \<Rightarrow> 'd task list \<Rightarrow> 'd list \<Rightarrow> 'd list option" where
  "join_all A [] partial_sums = Some partial_sums"
| "join_all A (k # ks) partial_sums =
     (case thread_body A k partial_sums of
        None \<Rightarrow> None
      | Some partial_sums' \<Rightarrow> join_all A ks partial_sums')"

text \<open>\<^verbatim>\<open>for (auto v : partial_sums) total_sum += v;\<close>\<close>

fun accumulate :: "'d float_ops \<Rightarrow> 'd list \<Rightarrow> 'd \<Rightarrow> 'd" where
  "accumulate A [] total_sum = total_sum"
| "accumulate A (v # vs) total_sum = accumulate A vs (fadd A total_sum v)"

text \<open>
  Lines 37 to 66 of \<open>main\<close>: the threads created, the final \<open>partial_sums\<close> and
  \<open>pi_approx\<close>. \<open>sched\<close> reorders the created threads into the order of their writes.
\<close>

definition compute ::
  "'d float_ops \<Rightarrow> ('d task list \<Rightarrow> 'd task list) \<Rightarrow> u64 \<Rightarrow> u32
    \<Rightarrow> ('d task list \<times> 'd list \<times> 'd) option" where
  "compute A sched n num_threads =
     (let dx = fdiv A (flit A 1) (of_u64 A n);
          partial_sums = replicate (unat num_threads) (flit A 0);
          threads = spawn n num_threads dx 0
      in case join_all A (sched threads) partial_sums of
           None \<Rightarrow> None
         | Some ps \<Rightarrow> Some (threads, ps, fmul A (accumulate A ps (flit A 0)) dx))"

definition pi_approx ::
  "'d float_ops \<Rightarrow> ('d task list \<Rightarrow> 'd task list) \<Rightarrow> u64 \<Rightarrow> u32 \<Rightarrow> 'd option" where
  "pi_approx A sched n num_threads = map_option (\<lambda>(threads, ps, p). p) (compute A sched n num_threads)"

section \<open>\<open>main\<close>\<close>

datatype 'd item = Text string | U64 u64 | U32 u32 | Fixed12 'd

record 'd run =
  status :: int
  cerr :: string
  cout :: "'d item list"
  threads :: "'d task list"
  partial_sums :: "'d list"

definition newline :: "'d item" where
  "newline = Text [CHR 0x0A]"

definition return_1 :: "string \<Rightarrow> 'd run" where
  "return_1 msg = \<lparr>status = 1, cerr = msg, cout = [], threads = [], partial_sums = []\<rparr>"

text \<open>
  The two validation blocks at the start of \<open>main\<close>: \<open>Inl\<close> is the text written to
  \<open>std::cerr\<close> before \<open>return 1\<close>, \<open>Inr\<close> the value of \<open>n\<close> or \<open>num_threads\<close> afterwards.
\<close>

definition parse_n :: "string list \<Rightarrow> string + u64" where
  "parse_n argv =
     (if 2 \<le> length argv
      then (case extract_u64 (argv ! 1) of
              None \<Rightarrow> Inl (''Niepoprawna wartosc n: '' @ argv ! 1 @ [CHR 0x0A])
            | Some n \<Rightarrow>
                if n = 0 then Inl (''Niepoprawna wartosc n: '' @ argv ! 1 @ [CHR 0x0A])
                else Inr n)
      else Inr 100000000)"

definition parse_num_threads :: "u32 \<Rightarrow> string list \<Rightarrow> string + u32" where
  "parse_num_threads hardware_concurrency argv =
     (let num_threads = (if hardware_concurrency = 0 then 1 else hardware_concurrency)
      in if 3 \<le> length argv
         then (case extract_u32 (argv ! 2) of
                 None \<Rightarrow> Inl (''Niepoprawna liczba watkow: '' @ argv ! 2 @ [CHR 0x0A])
               | Some v \<Rightarrow>
                   if v = 0 then Inl (''Niepoprawna liczba watkow: '' @ argv ! 2 @ [CHR 0x0A])
                   else Inr v)
         else Inr num_threads)"

text \<open>
  \<open>main\<close>, with the environment as parameters: the operations on \<open>double\<close>, the order of the
  threads' writes, \<open>std::thread::hardware_concurrency()\<close>, the measured time and \<open>argv\<close>
  (\<open>argc = length argv\<close>). \<open>None\<close> is undefined behaviour.
\<close>

definition main_model ::
  "'d float_ops \<Rightarrow> ('d task list \<Rightarrow> 'd task list) \<Rightarrow> u32 \<Rightarrow> 'd \<Rightarrow> string list
    \<Rightarrow> 'd run option" where
  "main_model A sched hardware_concurrency elapsed argv =
     (case parse_n argv of
        Inl msg \<Rightarrow> Some (return_1 msg)
      | Inr n \<Rightarrow>
          (case parse_num_threads hardware_concurrency argv of
             Inl msg \<Rightarrow> Some (return_1 msg)
           | Inr requested \<Rightarrow>
               (let num_threads = clamp_threads n requested
                in case compute A sched n num_threads of
                     None \<Rightarrow> None
                   | Some (ths, ps, p) \<Rightarrow>
                       Some \<lparr>status = 0, cerr = '''',
                             cout = [Text ''Liczba podzialow (n) = '', U64 n, newline,
                                     Text ''Liczba watkow = '', U32 num_threads, newline,
                                     Text ''Przyblizenie PI = '', Fixed12 p, newline,
                                     Text ''Blad bezwzgledny = '',
                                     Fixed12 (fabs A (fsub A p
                                       (flit A (314159265358979323846 / 10 ^ 20)))), newline,
                                     Text ''Czas obliczen = '', Fixed12 elapsed, Text '' s'',
                                     newline],
                             threads = ths, partial_sums = ps\<rparr>)))"

section \<open>The partition as the specification writes it\<close>

text \<open>
  The start and the length of range \<open>t\<close> in the words of the specification, over the natural
  numbers: \<open>t * base + min(t, rem)\<close> and \<open>base + (1 if t < rem else 0)\<close>.
\<close>

definition spec_start :: "nat \<Rightarrow> nat \<Rightarrow> nat \<Rightarrow> nat" where
  "spec_start n w t = t * (n div w) + min t (n mod w)"

definition spec_length :: "nat \<Rightarrow> nat \<Rightarrow> nat \<Rightarrow> nat" where
  "spec_length n w t = n div w + (if t < n mod w then 1 else 0)"

section \<open>Auxiliary notions for the statements\<close>

text \<open>The index of \<open>partial_sums\<close> that a thread writes.\<close>

definition slot :: "'d task \<Rightarrow> nat" where
  "slot k = unat (task_t k)"

text \<open>
  A reading of ``numeric'' for a command-line argument, in the words of the specification
  (a positive integer): a non-empty string of decimal digits.
\<close>

definition spec_numeric :: "string \<Rightarrow> bool" where
  "spec_numeric s = (s \<noteq> [] \<and> list_all isdigit s)"

text \<open>
  Exact rational arithmetic as an instance of the operations: addition is associative here.
  It serves to compare with \<open>binary64\<close> below.
\<close>

definition exact_ops :: "rat float_ops" where
  "exact_ops = \<lparr>fadd = plus, fsub = minus, fmul = times, fdiv = divide, fabs = abs,
     of_u64 = (\<lambda>w. of_nat (unat w)), flit = (\<lambda>q. q)\<rparr>"

section \<open>IEEE 754 binary64\<close>

text \<open>
  A \<open>double\<close> is a finite value, an infinity or a NaN. A finite value is kept as the rational
  number it denotes, so that two finite doubles have the same bits exactly when they are equal
  here (the sign of zero and the payload of a NaN are not kept). Every operation returns the
  exact result rounded to the nearest representable value, ties to even (\<open>rnd\<close>): 53
  significant bits, exponents from \<open>-1022\<close> (below it the spacing stays \<open>2 powi -1074\<close>) and
  overflow to an infinity from \<open>2 ^ 1024\<close> on. Each operation of the source is rounded on its
  own (no fused multiply-add).
\<close>

datatype double = Finite rat | PInf | NInf | NaN

text \<open>The number of binary digits of a positive integer.\<close>

function bit_length :: "int \<Rightarrow> int" where
  "bit_length n = (if n \<le> 0 then 0 else 1 + bit_length (n div 2))"
  by pat_completeness auto
termination
  by (relation "measure nat") auto

declare bit_length.simps [simp del]

text \<open>For \<open>0 < q\<close>, the exponent \<open>e\<close> with \<open>2 powi e \<le> q < 2 powi (e + 1)\<close>.\<close>

definition ilog2 :: "rat \<Rightarrow> int" where
  "ilog2 q = (if 1 \<le> q then bit_length \<lfloor>q\<rfloor> - 1 else - bit_length (\<lceil>1 / q\<rceil> - 1))"

definition round_to_even :: "rat \<Rightarrow> int" where
  "round_to_even q =
     (let f = \<lfloor>q\<rfloor>; r = q - of_int f
      in if r < 1 / 2 then f else if 1 / 2 < r then f + 1 else if even f then f else f + 1)"

definition rnd :: "rat \<Rightarrow> double" where
  "rnd q =
     (if q = 0 then Finite 0
      else let e = max (ilog2 \<bar>q\<bar>) (- 1022);
               u = 2 powi (e - 52);
               r = of_int (round_to_even (q / u)) * u
           in if 2 ^ 1024 \<le> \<bar>r\<bar> then (if 0 < q then PInf else NInf) else Finite r)"

fun d_add :: "double \<Rightarrow> double \<Rightarrow> double" where
  "d_add (Finite a) (Finite b) = rnd (a + b)"
| "d_add NaN y = NaN"
| "d_add x NaN = NaN"
| "d_add PInf NInf = NaN"
| "d_add NInf PInf = NaN"
| "d_add PInf y = PInf"
| "d_add x PInf = PInf"
| "d_add NInf y = NInf"
| "d_add x NInf = NInf"

fun d_neg :: "double \<Rightarrow> double" where
  "d_neg (Finite a) = Finite (- a)"
| "d_neg PInf = NInf"
| "d_neg NInf = PInf"
| "d_neg NaN = NaN"

definition d_sub :: "double \<Rightarrow> double \<Rightarrow> double" where
  "d_sub x y = d_add x (d_neg y)"

fun d_abs :: "double \<Rightarrow> double" where
  "d_abs (Finite a) = Finite \<bar>a\<bar>"
| "d_abs PInf = PInf"
| "d_abs NInf = PInf"
| "d_abs NaN = NaN"

fun negative :: "double \<Rightarrow> bool" where
  "negative (Finite a) = (a < 0)"
| "negative NInf = True"
| "negative x = False"

fun d_mul :: "double \<Rightarrow> double \<Rightarrow> double" where
  "d_mul (Finite a) (Finite b) = rnd (a * b)"
| "d_mul NaN y = NaN"
| "d_mul x NaN = NaN"
| "d_mul x y =
     (if x = Finite 0 \<or> y = Finite 0 then NaN
      else if negative x = negative y then PInf else NInf)"

fun d_div :: "double \<Rightarrow> double \<Rightarrow> double" where
  "d_div (Finite a) (Finite b) =
     (if b = 0 then (if a = 0 then NaN else if 0 < a then PInf else NInf) else rnd (a / b))"
| "d_div NaN y = NaN"
| "d_div x NaN = NaN"
| "d_div (Finite a) y = Finite 0"
| "d_div x (Finite b) = (if negative x = (b < 0) then PInf else NInf)"
| "d_div x y = NaN"

definition binary64 :: "double float_ops" where
  "binary64 = \<lparr>fadd = d_add, fsub = d_sub, fmul = d_mul, fdiv = d_div, fabs = d_abs,
     of_u64 = (\<lambda>w. rnd (of_nat (unat w))), flit = rnd\<rparr>"

text \<open>Rounding a quotient of integers to the nearest integer, ties to even.\<close>

definition round_div :: "int \<Rightarrow> int \<Rightarrow> int" where
  "round_div a b =
     (let f = a div b; r = a mod b
      in if 2 * r < b then f else if b < 2 * r then f + 1 else if even f then f else f + 1)"

section \<open>Word arithmetic of the partition\<close>

lemma unat_ucast_u32: "unat (ucast (w::u32) :: u64) = unat w"
proof -
  have "unat w < 2 ^ 32" using unsigned_less [of w] by simp
  then have "unat w < 2 ^ 64" by simp
  then show ?thesis by (simp add: unsigned_ucast_eq take_bit_nat_eq_self)
qed

lemma unat_base_chunk: "unat (base_chunk n w) = unat n div unat w"
  by (simp add: base_chunk_def unat_div unat_ucast_u32)

lemma unat_remainder: "unat (remainder n w) = unat n mod unat w"
  by (simp add: remainder_def unat_mod unat_ucast_u32)

lemma start_le_total:
  fixes n w t :: nat
  assumes "t \<le> w"
  shows "t * (n div w) + min t (n mod w) \<le> n"
proof -
  have "t * (n div w) \<le> w * (n div w)" using assms by simp
  moreover have "min t (n mod w) \<le> n mod w" by simp
  moreover have "w * (n div w) + n mod w = n" by simp
  ultimately show ?thesis by linarith
qed

lemma unat_start_idx:
  assumes "unat t \<le> unat w"
  shows "unat (start_idx n w t) = unat t * (unat n div unat w) + min (unat t) (unat n mod unat w)"
proof -
  let ?b = "unat n div unat w" and ?r = "unat n mod unat w"
  have bound: "unat t * ?b + min (unat t) ?r \<le> unat n"
    using assms by (rule start_le_total)
  have n64: "unat n < 2 ^ 64" using unsigned_less [of n] by simp
  have m: "unat (min (ucast t) (remainder n w) :: u64) = min (unat t) ?r"
    by (simp add: min_def word_le_nat_alt unat_ucast_u32 unat_remainder)
  have "unat (ucast t :: u64) * unat (base_chunk n w) < 2 ^ LENGTH(64)"
    using bound n64 by (simp add: unat_ucast_u32 unat_base_chunk)
  then have p: "unat (ucast t * base_chunk n w) = unat t * ?b"
    by (simp add: unat_mult_lem [THEN iffD1] unat_ucast_u32 unat_base_chunk)
  have "unat (ucast t * base_chunk n w) + unat (min (ucast t) (remainder n w) :: u64) < 2 ^ LENGTH(64)"
    using bound n64 by (simp add: p m)
  then show ?thesis
    unfolding start_idx_def by (simp add: unat_add_lem [THEN iffD1] p m)
qed

lemma unat_chunk_size:
  assumes "0 < unat w"
  shows "unat (chunk_size n w t) = unat n div unat w + (if unat t < unat n mod unat w then 1 else 0)"
proof -
  let ?b = "unat n div unat w" and ?r = "unat n mod unat w"
  have n64: "unat n < 2 ^ 64" using unsigned_less [of n] by simp
  show ?thesis
  proof (cases "unat t < ?r")
    case True
    have "?b * 1 \<le> ?b * unat w" using assms by (simp del: mult_1_right)
    moreover have "?b * unat w + ?r = unat n" by simp
    ultimately have "?b + 1 \<le> unat n" using True by linarith
    then have "unat (base_chunk n w) + unat (1::u64) < 2 ^ LENGTH(64)"
      using n64 by (simp add: unat_base_chunk)
    then have "unat (base_chunk n w + 1) = ?b + 1"
      by (simp add: unat_add_lem [THEN iffD1] unat_base_chunk)
    with True show ?thesis
      by (simp add: chunk_size_def word_less_nat_alt unat_ucast_u32 unat_remainder)
  next
    case False
    then show ?thesis
      by (simp add: chunk_size_def word_less_nat_alt unat_ucast_u32 unat_remainder unat_base_chunk)
  qed
qed

lemma unat_clamp_threads: "unat (clamp_threads n w) = min (unat w) (unat n)"
proof (cases "(ucast w :: u64) > n")
  case True
  then have lt: "unat n < unat w" by (simp add: word_less_nat_alt unat_ucast_u32)
  have "unat w < 2 ^ 32" using unsigned_less [of w] by simp
  with lt have "unat n < 2 ^ 32" by simp
  then have "unat (ucast n :: u32) = unat n"
    by (simp add: unsigned_ucast_eq take_bit_nat_eq_self)
  moreover have "min (ucast w) n = n" using True by (simp add: min.absorb2 less_imp_le)
  ultimately show ?thesis using True lt by (simp add: clamp_threads_def)
next
  case False
  then have "unat w \<le> unat n" by (simp add: word_less_nat_alt unat_ucast_u32)
  with False show ?thesis by (simp add: clamp_threads_def)
qed

lemma spec_start_Suc: "spec_start n w (Suc t) = spec_start n w t + spec_length n w t"
  by (simp add: spec_start_def spec_length_def min_def)

lemma spec_start_0: "spec_start n w 0 = 0"
  by (simp add: spec_start_def)

lemma spec_start_total: "0 < w \<Longrightarrow> spec_start n w w = n"
proof -
  assume "0 < w"
  then have "n mod w < w" by simp
  then have "min w (n mod w) = n mod w" by simp
  then show ?thesis by (simp add: spec_start_def)
qed

lemma spec_start_mono: "i \<le> j \<Longrightarrow> spec_start n w i \<le> spec_start n w j"
  unfolding spec_start_def by (intro add_mono mult_le_mono1 min.mono) simp_all

lemma concat_upt_chain:
  fixes f :: "nat \<Rightarrow> nat"
  assumes "\<And>t. t < w \<Longrightarrow> f t \<le> f (Suc t)"
  shows "concat (map (\<lambda>t. [f t..<f (Suc t)]) [0..<w]) = [f 0..<f w]"
  using assms
proof (induction w)
  case 0
  then show ?case by simp
next
  case (Suc w)
  have mono: "f 0 \<le> f w"
    using Suc.prems by (induction w) (auto intro: order_trans less_SucI)
  have "[f 0..<f w] @ [f w..<f (Suc w)] = [f 0..<f (Suc w)]"
    using mono Suc.prems [of w] by (metis le_Suc_ex lessI upt_add_eq_append)
  then show ?case using Suc by simp
qed

lemma spawn_from:
  "t \<le> w \<Longrightarrow> spawn n w dx t = map (\<lambda>j. mk_task n w dx (of_nat j)) [unat t..<unat w]"
proof (induction n w dx t rule: spawn.induct)
  case (1 n w dx t)
  show ?case
  proof (cases "t < w")
    case True
    then have suc: "unat (t + 1) = Suc (unat t)" and lt: "unat t < unat w" and le: "t + 1 \<le> w"
      by unat_arith+
    have "spawn n w dx (t + 1) = map (\<lambda>j. mk_task n w dx (of_nat j)) [unat (t + 1)..<unat w]"
      using "1.IH" [OF True le] .
    then show ?thesis
      using True lt by (subst spawn.simps) (simp add: suc upt_conv_Cons)
  next
    case False
    with "1.prems" have "t = w" by simp
    then show ?thesis by (subst spawn.simps) simp
  qed
qed

lemma spawn_eq: "spawn n w dx 0 = map (\<lambda>j. mk_task n w dx (of_nat j)) [0..<unat w]"
  using spawn_from [of 0 w n dx] by simp

lemma unat_of_nat_u32: "t \<le> unat (w::u32) \<Longrightarrow> unat (of_nat t :: u32) = t"
  by (rule le_unat_uoi)

lemma lo_mk_task:
  assumes "t \<le> unat w"
  shows "unat (task_start (mk_task n w dx (of_nat t))) = spec_start (unat n) (unat w) t"
  using assms unat_of_nat_u32 [OF assms] by (simp add: mk_task_def spec_start_def unat_start_idx)

lemma hi_mk_task:
  assumes "t < unat w"
  shows "unat (task_end (mk_task n w dx (of_nat t))) = spec_start (unat n) (unat w) (Suc t)"
proof -
  let ?t = "of_nat t :: u32"
  have t: "unat ?t = t" using assms by (intro unat_of_nat_u32 [of _ w]) simp
  have s: "unat (start_idx n w ?t) = spec_start (unat n) (unat w) t"
    using assms by (simp add: spec_start_def unat_start_idx t)
  have c: "unat (chunk_size n w ?t) = spec_length (unat n) (unat w) t"
    using assms by (simp add: spec_length_def unat_chunk_size t)
  have "spec_start (unat n) (unat w) (Suc t) \<le> spec_start (unat n) (unat w) (unat w)"
    using assms by (intro spec_start_mono) simp
  also have "\<dots> = unat n" using assms by (simp add: spec_start_total)
  also have "\<dots> < 2 ^ 64" using unsigned_less [of n] by simp
  finally have "unat (start_idx n w ?t) + unat (chunk_size n w ?t) < 2 ^ LENGTH(64)"
    by (simp add: s c spec_start_Suc)
  then have "unat (end_idx n w ?t) = unat (start_idx n w ?t) + unat (chunk_size n w ?t)"
    unfolding end_idx_def by (simp add: unat_add_lem [THEN iffD1])
  then show ?thesis by (simp add: mk_task_def s c spec_start_Suc)
qed

lemma ranges_disjoint:
  assumes "i < j"
  shows "{spec_start n w i..<spec_start n w (Suc i)} \<inter> {spec_start n w j..<spec_start n w (Suc j)} = {}"
proof -
  have "spec_start n w (Suc i) \<le> spec_start n w j"
    using assms by (intro spec_start_mono) simp
  then show ?thesis by auto
qed

section \<open>The work ranges\<close>

text \<open>
  Claim C1. For \<open>1 \<le> W \<le> N\<close> the loop creates exactly \<open>W\<close> ranges; range \<open>t\<close> starts at
  \<open>t * (N div W) + min t (N mod W)\<close> and has \<open>N div W + 1\<close> elements if \<open>t < N mod W\<close> and
  \<open>N div W\<close> otherwise, computed in 64-bit arithmetic without wrap-around. The ranges are
  pairwise disjoint, each ends where the next one starts, the first starts at \<open>0\<close>, the last
  ends at \<open>N\<close>, their concatenation in task order is \<open>[0, N)\<close>, and two lengths differ by at
  most one.
\<close>

theorem partition_ranges:
  fixes N :: u64 and W :: u32 and dx :: 'd
  assumes "1 \<le> unat W" and "unat W \<le> unat N"
  shows "let n = unat N; w = unat W; ks = spawn N W dx 0;
             lo = (\<lambda>t. unat (task_start (ks ! t))); hi = (\<lambda>t. unat (task_end (ks ! t)))
         in length ks = w
          \<and> (\<forall>t<w. task_t (ks ! t) = of_nat t
                \<and> lo t = t * (n div w) + min t (n mod w)
                \<and> hi t = lo t + (n div w + (if t < n mod w then 1 else 0)))
          \<and> (\<forall>i<w. \<forall>j<w. i \<noteq> j \<longrightarrow> {lo i..<hi i} \<inter> {lo j..<hi j} = {})
          \<and> lo 0 = 0 \<and> (\<forall>t. Suc t < w \<longrightarrow> hi t = lo (Suc t)) \<and> hi (w - 1) = n
          \<and> concat (map (\<lambda>k. [unat (task_start k)..<unat (task_end k)]) ks) = [0..<n]
          \<and> (\<forall>i<w. \<forall>j<w. hi i - lo i \<le> hi j - lo j + 1)"
proof -
  define n w where "n = unat N" and "w = unat W"
  define ks where "ks = spawn N W dx 0"
  let ?lo = "\<lambda>t. unat (task_start (ks ! t))" and ?hi = "\<lambda>t. unat (task_end (ks ! t))"
  have w: "0 < w" using assms by (simp add: w_def)
  have ks: "ks = map (\<lambda>j. mk_task N W dx (of_nat j)) [0..<w]"
    by (simp add: ks_def w_def spawn_eq)
  have len: "length ks = w" by (simp add: ks)
  have lo: "?lo t = spec_start n w t" if "t < w" for t
    using that by (simp add: ks n_def w_def lo_mk_task)
  have hi: "?hi t = spec_start n w (Suc t)" if "t < w" for t
    using that by (simp add: ks n_def w_def hi_mk_task)
  have shape: "\<forall>t<w. task_t (ks ! t) = of_nat t
                \<and> ?lo t = t * (n div w) + min t (n mod w)
                \<and> ?hi t = ?lo t + (n div w + (if t < n mod w then 1 else 0))"
  proof (intro allI impI conjI)
    fix t assume t: "t < w"
    show "task_t (ks ! t) = of_nat t" using t by (simp add: ks mk_task_def)
    show "?lo t = t * (n div w) + min t (n mod w)" using t by (simp add: lo spec_start_def)
    show "?hi t = ?lo t + (n div w + (if t < n mod w then 1 else 0))"
      using t by (simp add: lo hi spec_start_Suc spec_length_def)
  qed
  have disj: "\<forall>i<w. \<forall>j<w. i \<noteq> j \<longrightarrow> {?lo i..<?hi i} \<inter> {?lo j..<?hi j} = {}"
  proof (intro allI impI)
    fix i j assume ij: "i < w" "j < w" "i \<noteq> j"
    then consider "i < j" | "j < i" by (meson nat_neq_iff)
    then show "{?lo i..<?hi i} \<inter> {?lo j..<?hi j} = {}"
    proof cases
      case 1
      then show ?thesis using ij ranges_disjoint [of i j n w] by (simp add: lo hi)
    next
      case 2
      then show ?thesis using ij ranges_disjoint [of j i n w] by (simp add: lo hi Int_commute)
    qed
  qed
  have first: "?lo 0 = 0" using w by (simp add: lo spec_start_0)
  have contig: "\<forall>t. Suc t < w \<longrightarrow> ?hi t = ?lo (Suc t)" by (simp add: lo hi)
  have last: "?hi (w - 1) = n" using w by (simp add: hi spec_start_total)
  have "concat (map (\<lambda>k. [unat (task_start k)..<unat (task_end k)]) ks)
      = concat (map (\<lambda>t. [spec_start n w t..<spec_start n w (Suc t)]) [0..<w])"
    unfolding ks map_map
    by (intro arg_cong [where f = concat] map_cong refl)
      (simp add: n_def w_def lo_mk_task hi_mk_task)
  also have "\<dots> = [spec_start n w 0..<spec_start n w w]"
    by (intro concat_upt_chain spec_start_mono) simp
  finally have cover: "concat (map (\<lambda>k. [unat (task_start k)..<unat (task_end k)]) ks) = [0..<n]"
    using w by (simp add: spec_start_0 spec_start_total)
  have skew: "\<forall>i<w. \<forall>j<w. ?hi i - ?lo i \<le> ?hi j - ?lo j + 1"
    by (simp add: lo hi spec_start_Suc spec_length_def)
  show ?thesis
    unfolding Let_def n_def [symmetric] w_def [symmetric] ks_def [symmetric]
    using len shape disj first contig last cover skew by (intro conjI) assumption+
qed

theorem partition_ranges_witness:
  "1 \<le> unat (3 :: u32) \<and> unat (3 :: u32) \<le> unat (10 :: u64)
   \<and> map (\<lambda>k. (unat (task_start k), unat (task_end k))) (spawn 10 3 () 0) = [(0, 4), (4, 7), (7, 10)]
   \<and> concat (map (\<lambda>k. [unat (task_start k)..<unat (task_end k)]) (spawn 10 3 () 0)) = [0..<unat (10 :: u64)]"
proof -
  have h1: "1 \<le> unat (3 :: u32)" and h2: "unat (3 :: u32) \<le> unat (10 :: u64)" by simp_all
  have ks: "spawn 10 3 () 0 = [mk_task 10 3 () 0, mk_task 10 3 () 1, mk_task 10 3 () 2]"
    by (simp add: spawn.simps)
  have r: "map (\<lambda>k. (unat (task_start k), unat (task_end k))) (spawn 10 3 () 0) = [(0, 4), (4, 7), (7, 10)]"
    unfolding ks
    by (simp add: mk_task_def start_idx_def end_idx_def chunk_size_def base_chunk_def remainder_def)
  from partition_ranges [OF h1 h2, of "()"]
  have "concat (map (\<lambda>k. [unat (task_start k)..<unat (task_end k)]) (spawn 10 3 () 0)) = [0..<unat (10 :: u64)]"
    unfolding Let_def by (elim conjE)
  with h1 h2 r show ?thesis by (intro conjI)
qed

section \<open>The task-local sum\<close>

lemma local_sum_loop_foldl:
  "local_sum_loop A dx i e s
     = foldl (\<lambda>acc j. fadd A acc (integrand A dx (of_nat j))) s [unat i..<unat e]"
proof (induction A dx i e s rule: local_sum_loop.induct)
  case (1 A dx i e s)
  show ?case
  proof (cases "i < e")
    case True
    then have suc: "unat (i + 1) = Suc (unat i)" and lt: "unat i < unat e"
      by unat_arith+
    show ?thesis
      using True lt "1.IH" [OF True]
      by (subst local_sum_loop.simps) (simp add: suc upt_conv_Cons)
  next
    case False
    then have "unat e \<le> unat i" by (simp add: word_less_nat_alt)
    with False show ?thesis by (subst local_sum_loop.simps) simp
  qed
qed

lemma local_sum_foldl:
  "local_sum A k
     = foldl (\<lambda>acc j. fadd A acc (integrand A (task_dx k) (of_nat j))) (flit A 0)
         [unat (task_start k)..<unat (task_end k)]"
  by (simp add: local_sum_def local_sum_loop_foldl)

text \<open>
  Claim C3. The sum of a task is the left fold of the double addition over the indices
  \<open>start, start + 1, \<dots>, end - 1\<close> in ascending order, starting from \<open>0.0\<close>, of the terms
  \<open>4.0 / (1.0 + x * x)\<close> with \<open>x = (double(i) + 0.5) * dx\<close>. It is determined by the captured
  \<open>start_idx\<close>, \<open>end_idx\<close> and \<open>dx\<close>; the index \<open>t\<close> and the shared vector do not enter it.
\<close>

theorem local_sum_ascending:
  "local_sum A k
     = foldl (\<lambda>acc j. fadd A acc (integrand A (task_dx k) (of_nat j))) (flit A 0)
         [unat (task_start k)..<unat (task_end k)]
   \<and> integrand A dx i
     = fdiv A (flit A 4)
         (fadd A (flit A 1)
            (fmul A (fmul A (fadd A (of_u64 A i) (flit A (1 / 2))) dx)
                    (fmul A (fadd A (of_u64 A i) (flit A (1 / 2))) dx)))"
  by (simp add: local_sum_def local_sum_loop_foldl integrand_def denominator_def midpoint_def Let_def)

section \<open>The threads and the shared vector\<close>

lemma join_all_fold:
  assumes "\<forall>k\<in>set ts. slot k < length ps"
  shows "join_all A ts ps = Some (fold (\<lambda>k ps. ps[slot k := local_sum A k]) ts ps)"
  using assms
  by (induction ts arbitrary: ps) (simp_all add: thread_body_def slot_def)

lemma length_fold_update:
  "length (fold (\<lambda>k ps. ps[slot k := local_sum A k]) ts ps) = length ps"
  by (induction ts arbitrary: ps) simp_all

lemma fold_update_other:
  assumes "j \<notin> slot ` set ts"
  shows "fold (\<lambda>k ps. ps[slot k := local_sum A k]) ts ps ! j = ps ! j"
  using assms by (induction ts arbitrary: ps) auto

lemma fold_update_written:
  assumes "distinct (map slot ts)" and "k \<in> set ts" and "slot k < length ps"
  shows "fold (\<lambda>k ps. ps[slot k := local_sum A k]) ts ps ! slot k = local_sum A k"
  using assms
proof (induction ts arbitrary: ps)
  case Nil
  then show ?case by simp
next
  case (Cons a ts)
  show ?case
  proof (cases "k \<in> set ts")
    case True
    with Cons show ?thesis by simp
  next
    case False
    with Cons.prems have ka: "k = a" and "slot a \<notin> slot ` set ts" by auto
    then show ?thesis using Cons.prems(3) by (simp add: fold_update_other)
  qed
qed

lemma slots_spawn: "map slot (spawn n w dx 0) = [0..<unat w]"
proof -
  have *: "slot (mk_task n w dx (of_nat j)) = j" if "j < unat w" for j
    using that by (simp add: slot_def mk_task_def less_imp_le [THEN unat_of_nat_u32])
  have "map slot (spawn n w dx 0) = map (\<lambda>j. slot (mk_task n w dx (of_nat j))) [0..<unat w]"
    by (simp add: spawn_eq)
  also have "\<dots> = [0..<unat w]"
    by (rule map_idI) (simp add: *)
  finally show ?thesis .
qed

lemma join_all_spawn:
  assumes perm: "mset ts = mset (spawn n w dx 0)"
  shows "join_all A ts (replicate (unat w) z) = Some (map (local_sum A) (spawn n w dx 0))"
proof -
  let ?ks = "spawn n w dx 0" and ?upd = "\<lambda>k ps. ps[slot k := local_sum A k]"
  let ?ps = "replicate (unat w) z"
  have len: "length ?ks = unat w" using slots_spawn [of n w dx] by (metis length_map length_upt minus_nat.diff_0)
  have set_eq: "set ts = set ?ks" using perm by (rule mset_eq_setD)
  have "mset (map slot ts) = mset (map slot ?ks)" using perm by simp
  then have dist: "distinct (map slot ts)"
    by (metis distinct_upt mset_eq_imp_distinct_iff slots_spawn)
  have slot_nth: "slot (?ks ! j) = j" if "j < unat w" for j
    using that slots_spawn [of n w dx] len by (metis add_0 nth_map nth_upt)
  have bound: "\<forall>k\<in>set ts. slot k < length ?ps"
  proof
    fix k assume "k \<in> set ts"
    then have "slot k \<in> set (map slot ?ks)" using set_eq by simp
    then show "slot k < length ?ps" by (simp add: slots_spawn)
  qed
  have "fold ?upd ts ?ps = map (local_sum A) ?ks"
  proof (rule nth_equalityI)
    show "length (fold ?upd ts ?ps) = length (map (local_sum A) ?ks)"
      by (simp add: length_fold_update len)
  next
    fix j assume "j < length (fold ?upd ts ?ps)"
    then have j: "j < unat w" by (simp add: length_fold_update)
    then have mem: "?ks ! j \<in> set ts" using set_eq len by simp
    have "fold ?upd ts ?ps ! slot (?ks ! j) = local_sum A (?ks ! j)"
      using dist mem by (rule fold_update_written) (simp add: slot_nth j)
    then show "fold ?upd ts ?ps ! j = map (local_sum A) ?ks ! j"
      using j len by (simp add: slot_nth)
  qed
  then show ?thesis using join_all_fold [OF bound, of A] by simp
qed

lemma accumulate_foldl: "accumulate A vs s = foldl (fadd A) s vs"
  by (induction vs arbitrary: s) simp_all

lemma compute_eq:
  assumes "\<And>ts. mset (sched ts) = mset ts"
  shows "compute A sched n w
     = (let dx = fdiv A (flit A 1) (of_u64 A n); ks = spawn n w dx 0; ps = map (local_sum A) ks
        in Some (ks, ps, fmul A (foldl (fadd A) (flit A 0) ps) dx))"
  by (simp add: compute_def Let_def join_all_spawn [OF assms] accumulate_foldl)

lemma pi_approx_ordered:
  assumes "\<And>ts. mset (sched ts) = mset ts"
  shows "pi_approx A sched n w
     = (let dx = fdiv A (flit A 1) (of_u64 A n)
        in Some (fmul A
             (foldl (fadd A) (flit A 0)
                (map (\<lambda>t. local_sum A (mk_task n w dx (of_nat t))) [0..<unat w]))
             dx))"
  by (simp add: pi_approx_def compute_eq [OF assms] Let_def spawn_eq comp_def)

section \<open>The combination step\<close>

lemma exact_local_sum_4_2:
  "local_sum exact_ops (mk_task 4 2 (1 / 4) 0) = 256 / 65 + 256 / 73"
  "local_sum exact_ops (mk_task 4 2 (1 / 4) 1) = 256 / 89 + 256 / 113"
  by (simp_all add: local_sum_def mk_task_def start_idx_def end_idx_def chunk_size_def
      base_chunk_def remainder_def local_sum_loop.simps integrand_def denominator_def
      midpoint_def exact_ops_def Let_def)

text \<open>
  Claim C4. Whatever the order in which the threads finish, after the join slot \<open>t\<close> of
  \<open>partial_sums\<close> holds the sum of task \<open>t\<close>; the loop over \<open>partial_sums\<close> adds the slots
  from left to right, in the order \<open>0, 1, \<dots>, W - 1\<close>, starting from \<open>0.0\<close>, and \<open>pi_approx\<close> is
  that total multiplied by \<open>dx = 1.0 / double(n)\<close>.
\<close>

theorem combination_order:
  assumes "\<And>ts. mset (sched ts) = mset ts"
  shows "let dx = fdiv A (flit A 1) (of_u64 A n);
             ps = map (\<lambda>t. local_sum A (mk_task n w dx (of_nat t))) [0..<unat w]
         in compute A sched n w
              = Some (spawn n w dx 0, ps, fmul A (accumulate A ps (flit A 0)) dx)
          \<and> accumulate A ps (flit A 0) = foldl (fadd A) (flit A 0) ps
          \<and> pi_approx A sched n w = Some (fmul A (foldl (fadd A) (flit A 0) ps) dx)"
  by (simp add: pi_approx_def compute_eq [OF assms] Let_def spawn_eq comp_def accumulate_foldl)

theorem combination_order_witness:
  "pi_approx exact_ops rev 4 2 = Some ((256 / 65 + 256 / 73 + (256 / 89 + 256 / 113)) * (1 / 4))"
proof -
  have "[0..<unat (2 :: u32)] = [0, 1]" by (simp add: upt_conv_Cons)
  then show ?thesis
    using combination_order [of rev exact_ops 4 2] exact_local_sum_4_2
    by (simp add: exact_ops_def Let_def)
qed

lemma count_upt: "length (filter (\<lambda>i. i = j) [0..<m]) = (if j < m then 1 else 0)"
  by (induction m) auto

section \<open>The control flow of \<open>main\<close>\<close>

lemma main_model_computes:
  assumes perm: "\<And>ts. mset (sched ts) = mset ts"
    and n: "parse_n argv = Inr n"
    and w: "parse_num_threads hw argv = Inr w"
  shows "\<exists>r. main_model A sched hw elapsed argv = Some r
     \<and> status r = 0 \<and> cerr r = []
     \<and> take 6 (cout r) = [Text ''Liczba podzialow (n) = '', U64 n, newline,
                            Text ''Liczba watkow = '', U32 (clamp_threads n w), newline]
     \<and> threads r = spawn n (clamp_threads n w) (fdiv A (flit A 1) (of_u64 A n)) 0
     \<and> partial_sums r = map (local_sum A) (threads r)
     \<and> cout r ! 7 = Fixed12 (fmul A (foldl (fadd A) (flit A 0) (partial_sums r))
                                       (fdiv A (flit A 1) (of_u64 A n)))"
  by (simp add: main_model_def n w compute_eq [OF perm] Let_def)

lemma main_model_rejects_n:
  assumes "parse_n argv = Inl msg"
  shows "main_model A sched hw elapsed argv = Some (return_1 msg)"
  by (simp add: main_model_def assms)

lemma main_model_rejects_threads:
  assumes "parse_n argv = Inr n" and "parse_num_threads hw argv = Inl msg"
  shows "main_model A sched hw elapsed argv = Some (return_1 msg)"
  by (simp add: main_model_def assms)

lemmas extract_defs = extract_u64_def extract_u32_def extract_unsigned_def isspace_def
  isdigit_def decimal_def digit_value_def

lemma parse_num_threads_nonzero:
  assumes "parse_num_threads hw argv = Inr w"
  shows "w \<noteq> 0"
  using assms by (auto simp: parse_num_threads_def Let_def split: if_splits option.splits)

lemma parse_n_nonzero:
  assumes "parse_n argv = Inr n"
  shows "n \<noteq> 0"
  using assms by (auto simp: parse_n_def split: if_splits option.splits)

lemma clamp_threads_valid:
  assumes "n \<noteq> 0" and "w \<noteq> 0"
  shows "1 \<le> unat (clamp_threads n w)" and "unat (clamp_threads n w) \<le> unat n"
  using assms by (simp_all add: unat_clamp_threads unat_gt_0 Suc_le_eq)

section \<open>The effective worker count\<close>

text \<open>
  Claim C6. When both arguments are accepted, \<open>main\<close> works with \<open>min(workers, N)\<close> workers,
  \<open>workers\<close> being the requested or detected count: that is the count it prints, the number
  of threads it creates and the number of slots of \<open>partial_sums\<close>, and it is the count that
  enters the partition, range \<open>t\<close> starting at \<open>t * (N div m) + min(t, N mod m)\<close> and having
  \<open>N div m + (1 if t < N mod m else 0)\<close> indices for \<open>m = min(workers, N)\<close>.
\<close>

theorem effective_workers_min:
  assumes "\<And>ts. mset (sched ts) = mset ts"
    and "parse_n argv = Inr n"
    and "parse_num_threads hardware_concurrency argv = Inr w"
  shows "let m = min (unat w) (unat n)
         in unat (clamp_threads n w) = m
          \<and> (\<exists>r. main_model A sched hardware_concurrency elapsed argv = Some r
               \<and> cout r ! 4 = U32 (clamp_threads n w)
               \<and> length (threads r) = m
               \<and> length (partial_sums r) = m
               \<and> (\<forall>t<m. task_t (threads r ! t) = of_nat t
                     \<and> unat (task_start (threads r ! t))
                         = t * (unat n div m) + min t (unat n mod m)
                     \<and> unat (task_end (threads r ! t))
                         = unat (task_start (threads r ! t))
                           + (unat n div m + (if t < unat n mod m then 1 else 0))))"
proof -
  define W where "W = clamp_threads n w"
  define m where "m = min (unat w) (unat n)"
  have uW: "unat W = m" by (simp add: W_def m_def unat_clamp_threads)
  from main_model_computes [OF assms, where A = A and elapsed = elapsed]
  obtain r where r: "main_model A sched hardware_concurrency elapsed argv = Some r"
    "take 6 (cout r) = [Text ''Liczba podzialow (n) = '', U64 n, newline,
       Text ''Liczba watkow = '', U32 W, newline]"
    "threads r = spawn n W (fdiv A (flit A 1) (of_u64 A n)) 0"
    "partial_sums r = map (local_sum A) (threads r)"
    unfolding W_def by blast
  have "take 6 (cout r) ! 4 = U32 W" by (simp add: r(2))
  then have c4: "cout r ! 4 = U32 W" by simp
  have len: "length (threads r) = m" by (simp add: r(3) spawn_eq uW)
  have lenp: "length (partial_sums r) = m" by (simp add: r(4) len)
  have each: "\<forall>t<m. task_t (threads r ! t) = of_nat t
      \<and> unat (task_start (threads r ! t)) = t * (unat n div m) + min t (unat n mod m)
      \<and> unat (task_end (threads r ! t))
          = unat (task_start (threads r ! t)) + (unat n div m + (if t < unat n mod m then 1 else 0))"
  proof (intro allI impI)
    fix t assume t: "t < m"
    then have tW: "t < unat W" "t \<le> unat W" by (simp_all add: uW)
    have k: "threads r ! t = mk_task n W (fdiv A (flit A 1) (of_u64 A n)) (of_nat t)"
      using tW(1) by (simp add: r(3) spawn_eq)
    have lo: "unat (task_start (threads r ! t)) = spec_start (unat n) m t"
      unfolding k using lo_mk_task [OF tW(2)] by (simp add: uW)
    have hi: "unat (task_end (threads r ! t)) = spec_start (unat n) m (Suc t)"
      unfolding k using hi_mk_task [OF tW(1)] by (simp add: uW)
    show "task_t (threads r ! t) = of_nat t
      \<and> unat (task_start (threads r ! t)) = t * (unat n div m) + min t (unat n mod m)
      \<and> unat (task_end (threads r ! t))
          = unat (task_start (threads r ! t)) + (unat n div m + (if t < unat n mod m then 1 else 0))"
    proof (intro conjI)
      show "task_t (threads r ! t) = of_nat t" by (simp add: k mk_task_def)
      show "unat (task_start (threads r ! t)) = t * (unat n div m) + min t (unat n mod m)"
        by (simp only: lo spec_start_def)
      show "unat (task_end (threads r ! t))
          = unat (task_start (threads r ! t)) + (unat n div m + (if t < unat n mod m then 1 else 0))"
        by (simp only: lo hi spec_start_Suc spec_length_def)
    qed
  qed
  from r(1) c4 len lenp each uW show ?thesis
    unfolding Let_def m_def [symmetric] W_def [symmetric] by blast
qed

theorem effective_workers_min_witness:
  "parse_n [''pi'', ''3'', ''8''] = Inr 3
   \<and> parse_num_threads 4 [''pi'', ''3'', ''8''] = Inr 8
   \<and> unat (clamp_threads 3 8) = 3
   \<and> map_option (length \<circ> threads) (main_model binary64 rev 4 (Finite 0) [''pi'', ''3'', ''8''])
       = Some 3"
proof -
  have n: "parse_n [''pi'', ''3'', ''8''] = Inr 3"
    by (simp add: parse_n_def extract_defs)
  have w: "parse_num_threads 4 [''pi'', ''3'', ''8''] = Inr 8"
    by (simp add: parse_num_threads_def extract_defs)
  have "mset (rev ts) = mset ts" for ts :: "double task list" by simp
  from effective_workers_min [OF this n w, of binary64 "Finite 0"] n w show ?thesis
    by (auto simp: Let_def)
qed

section \<open>The slots of the shared vector\<close>

text \<open>
  Claim C8. \<open>compute\<close> allocates \<open>partial_sums\<close> with \<open>W\<close> slots and creates \<open>W\<close> tasks carrying
  the indices \<open>0, 1, \<dots>, W - 1\<close>, one each: task \<open>t\<close> writes slot \<open>t\<close>, inside the vector;
  the map from tasks to slots is a bijection; in every order of execution each slot is written
  exactly once and no write is out of bounds, so that \<open>compute\<close> returns; the vector it reads
  after the join has \<open>W\<close> entries, slot \<open>t\<close> holding the sum of task \<open>t\<close>, and the estimate is
  accumulated from that vector. In \<open>main\<close>, \<open>W\<close> is the clamped count, between \<open>1\<close> and \<open>n\<close>,
  and the threads, the vector and the printed estimate are those of \<open>compute\<close>.
\<close>

theorem slot_bijection:
  assumes "\<And>ts. mset (sched ts) = mset ts"
    and "parse_n argv = Inr n"
    and "parse_num_threads hardware_concurrency argv = Inr w"
  shows "(let dx = fdiv A (flit A 1) (of_u64 A N);
              ks = spawn N W dx 0;
              partial_sums = replicate (unat W) (flit A 0);
              written = map (local_sum A) ks
          in compute A sched N W
               = Some (ks, written, fmul A (accumulate A written (flit A 0)) dx)
           \<and> length written = unat W
           \<and> map (\<lambda>k. unat (task_t k)) ks = [0..<length partial_sums]
           \<and> bij_betw (\<lambda>t. unat (task_t (ks ! t))) {..<length ks} {..<length partial_sums}
           \<and> (\<forall>j<length partial_sums.
                 length (filter (\<lambda>k. unat (task_t k) = j) (sched ks)) = 1)
           \<and> join_all A (sched ks) partial_sums = Some written)
     \<and> (\<exists>r p. main_model A sched hardware_concurrency elapsed argv = Some r
          \<and> 1 \<le> unat (clamp_threads n w) \<and> unat (clamp_threads n w) \<le> unat n
          \<and> compute A sched n (clamp_threads n w) = Some (threads r, partial_sums r, p)
          \<and> length (partial_sums r) = unat (clamp_threads n w)
          \<and> cout r ! 7 = Fixed12 p)"
proof -
  define dx where "dx = fdiv A (flit A 1) (of_u64 A N)"
  let ?ks = "spawn N W dx 0"
  have slots: "map (\<lambda>k. unat (task_t k)) ?ks = [0..<unat W]"
    using slots_spawn [of N W dx] by (simp add: slot_def [abs_def])
  have len: "length ?ks = unat W"
    using arg_cong [OF slots, of length] by simp
  have nth: "unat (task_t (?ks ! t)) = t" if "t < unat W" for t
    using that arg_cong [OF slots, of "\<lambda>xs. xs ! t"] len by simp
  have bij: "bij_betw (\<lambda>t. unat (task_t (?ks ! t))) {..<length ?ks} {..<unat W}"
    unfolding len by (rule bij_betw_byWitness [where f' = "\<lambda>j. j"]) (auto simp: nth)
  have once: "length (filter (\<lambda>k. unat (task_t k) = j) (sched ?ks)) = 1" if "j < unat W" for j
  proof -
    have "length (filter (\<lambda>k. unat (task_t k) = j) (sched ?ks))
        = size (filter_mset (\<lambda>k. unat (task_t k) = j) (mset (sched ?ks)))"
      by (metis mset_filter size_mset)
    also have "\<dots> = length (filter (\<lambda>k. unat (task_t k) = j) ?ks)"
      by (metis assms(1) mset_filter size_mset)
    also have "\<dots> = length (filter (\<lambda>i. i = j) (map (\<lambda>k. unat (task_t k)) ?ks))"
      by (simp add: filter_map comp_def)
    also have "\<dots> = length (filter (\<lambda>i. i = j) [0..<unat W])"
      by (simp only: slots)
    also have "\<dots> = 1"
      using that by (simp add: count_upt)
    finally show ?thesis .
  qed
  have comp: "compute A sched N W
      = Some (?ks, map (local_sum A) ?ks,
          fmul A (accumulate A (map (local_sum A) ?ks) (flit A 0)) dx)"
    by (simp add: compute_eq [OF assms(1)] Let_def dx_def accumulate_foldl)
  have general: "let dx = fdiv A (flit A 1) (of_u64 A N);
              ks = spawn N W dx 0;
              partial_sums = replicate (unat W) (flit A 0);
              written = map (local_sum A) ks
          in compute A sched N W
               = Some (ks, written, fmul A (accumulate A written (flit A 0)) dx)
           \<and> length written = unat W
           \<and> map (\<lambda>k. unat (task_t k)) ks = [0..<length partial_sums]
           \<and> bij_betw (\<lambda>t. unat (task_t (ks ! t))) {..<length ks} {..<length partial_sums}
           \<and> (\<forall>j<length partial_sums.
                 length (filter (\<lambda>k. unat (task_t k) = j) (sched ks)) = 1)
           \<and> join_all A (sched ks) partial_sums = Some written"
    unfolding Let_def dx_def [symmetric]
    using comp len slots bij once join_all_spawn [OF assms(1)] by simp
  have valid: "1 \<le> unat (clamp_threads n w)" "unat (clamp_threads n w) \<le> unat n"
    using clamp_threads_valid [OF parse_n_nonzero [OF assms(2)]
        parse_num_threads_nonzero [OF assms(3)]]
    by simp_all
  from main_model_computes [OF assms, where A = A and elapsed = elapsed]
  obtain r where r: "main_model A sched hardware_concurrency elapsed argv = Some r"
    "threads r = spawn n (clamp_threads n w) (fdiv A (flit A 1) (of_u64 A n)) 0"
    "partial_sums r = map (local_sum A) (threads r)"
    "cout r ! 7 = Fixed12 (fmul A (foldl (fadd A) (flit A 0) (partial_sums r))
        (fdiv A (flit A 1) (of_u64 A n)))"
    by blast
  have c: "compute A sched n (clamp_threads n w)
      = Some (threads r, partial_sums r,
          fmul A (foldl (fadd A) (flit A 0) (partial_sums r)) (fdiv A (flit A 1) (of_u64 A n)))"
    by (simp add: compute_eq [OF assms(1)] Let_def r(2,3))
  have l: "length (partial_sums r) = unat (clamp_threads n w)"
    by (simp add: r(3) r(2) spawn_eq)
  from r(1) valid c l r(4) have "\<exists>r p. main_model A sched hardware_concurrency elapsed argv = Some r
          \<and> 1 \<le> unat (clamp_threads n w) \<and> unat (clamp_threads n w) \<le> unat n
          \<and> compute A sched n (clamp_threads n w) = Some (threads r, partial_sums r, p)
          \<and> length (partial_sums r) = unat (clamp_threads n w)
          \<and> cout r ! 7 = Fixed12 p"
    by blast
  with general show ?thesis by (rule conjI)
qed

theorem slot_bijection_witness:
  "parse_n [''pi'', ''4'', ''2''] = Inr 4
   \<and> parse_num_threads 8 [''pi'', ''4'', ''2''] = Inr 2
   \<and> compute exact_ops rev 4 2
       = Some ([mk_task 4 2 (1 / 4) 0, mk_task 4 2 (1 / 4) 1],
               [256 / 65 + 256 / 73, 256 / 89 + 256 / 113],
               (256 / 65 + 256 / 73 + (256 / 89 + 256 / 113)) * (1 / 4))"
proof -
  have n: "parse_n [''pi'', ''4'', ''2''] = Inr 4"
    by (simp add: parse_n_def extract_defs)
  have w: "parse_num_threads 8 [''pi'', ''4'', ''2''] = Inr 2"
    by (simp add: parse_num_threads_def extract_defs)
  have ks: "spawn 4 2 (1 / 4 :: rat) 0 = [mk_task 4 2 (1 / 4) 0, mk_task 4 2 (1 / 4) 1]"
    by (simp add: spawn.simps)
  have "mset (rev ts) = mset ts" for ts :: "rat task list" by simp
  from slot_bijection [OF this n w, of exact_ops 4 2 0, THEN conjunct1]
  have "compute exact_ops rev 4 2
       = Some ([mk_task 4 2 (1 / 4) 0, mk_task 4 2 (1 / 4) 1],
               [256 / 65 + 256 / 73, 256 / 89 + 256 / 113],
               (256 / 65 + 256 / 73 + (256 / 89 + 256 / 113)) * (1 / 4))"
    using exact_local_sum_4_2 by (simp add: Let_def exact_ops_def ks)
  with n w show ?thesis by simp
qed

section \<open>Rejected arguments\<close>

text \<open>When the extraction fails, in terms of the text of the argument.\<close>

lemma extract_unsigned_None_iff:
  "extract_unsigned maxv s = None \<longleftrightarrow>
     (let s1 = dropWhile isspace s;
          s2 = (if s1 \<noteq> [] \<and> (hd s1 = CHR ''-'' \<or> hd s1 = CHR ''+'') then tl s1 else s1)
      in s2 = [] \<or> \<not> isdigit (hd s2) \<or> maxv < decimal (takeWhile isdigit s2))"
  by (auto simp: extract_unsigned_def Let_def takeWhile_eq_Nil_iff)

text \<open>
  Claim C5, amended. If the extraction \<open>ss >> v\<close> fails for an argument that is present (after
  optional white space and one optional sign the text does not start with a decimal digit, or
  the digits denote a value above the maximum of the type) or yields zero, then \<open>main\<close> writes
  its message and the argument to \<open>std::cerr\<close> and returns \<open>1\<close>: nothing is written to
  \<open>std::cout\<close>, no thread is created and no partial sum exists. The first argument is examined
  first. An argument that only starts with a number is not rejected (see below).
\<close>

theorem invalid_argument_exits:
  assumes "2 \<le> length argv"
    and "extract_u64 (argv ! 1) = None \<or> extract_u64 (argv ! 1) = Some 0
         \<or> 3 \<le> length argv \<and> (extract_u32 (argv ! 2) = None \<or> extract_u32 (argv ! 2) = Some 0)"
  shows "main_model A sched hw elapsed argv
     = Some \<lparr>status = 1,
             cerr = (if extract_u64 (argv ! 1) = None \<or> extract_u64 (argv ! 1) = Some 0
                     then ''Niepoprawna wartosc n: '' @ argv ! 1 @ [CHR 0x0A]
                     else ''Niepoprawna liczba watkow: '' @ argv ! 2 @ [CHR 0x0A]),
             cout = [], threads = [], partial_sums = []\<rparr>"
proof (cases "extract_u64 (argv ! 1) = None \<or> extract_u64 (argv ! 1) = Some 0")
  case True
  then have "parse_n argv = Inl (''Niepoprawna wartosc n: '' @ argv ! 1 @ [CHR 0x0A])"
    using assms(1) by (auto simp: parse_n_def)
  then have "main_model A sched hw elapsed argv
      = Some (return_1 (''Niepoprawna wartosc n: '' @ argv ! 1 @ [CHR 0x0A]))"
    by (rule main_model_rejects_n)
  with True show ?thesis by (simp only: return_1_def if_True)
next
  case False
  then obtain n where n: "extract_u64 (argv ! 1) = Some n" "n \<noteq> 0" by auto
  then have pn: "parse_n argv = Inr n" using assms(1) by (simp add: parse_n_def)
  from False assms(2) have w: "3 \<le> length argv"
    "extract_u32 (argv ! 2) = None \<or> extract_u32 (argv ! 2) = Some 0" by auto
  then have "parse_num_threads hw argv
      = Inl (''Niepoprawna liczba watkow: '' @ argv ! 2 @ [CHR 0x0A])"
    by (auto simp: parse_num_threads_def)
  with pn have "main_model A sched hw elapsed argv
      = Some (return_1 (''Niepoprawna liczba watkow: '' @ argv ! 2 @ [CHR 0x0A]))"
    by (rule main_model_rejects_threads)
  with False show ?thesis by (simp only: return_1_def if_False)
qed

theorem invalid_argument_exits_witness:
  "main_model binary64 rev 4 (Finite 0) [''pi'', ''abc'']
     = Some \<lparr>status = 1, cerr = ''Niepoprawna wartosc n: abc'' @ [CHR 0x0A],
             cout = [], threads = [], partial_sums = []\<rparr>
   \<and> main_model binary64 rev 4 (Finite 0) [''pi'', ''1000'', ''0'']
     = Some \<lparr>status = 1, cerr = ''Niepoprawna liczba watkow: 0'' @ [CHR 0x0A],
             cout = [], threads = [], partial_sums = []\<rparr>"
proof -
  have a: "extract_u64 ''abc'' = None" by (simp add: extract_defs)
  have b: "extract_u64 ''1000'' = Some 1000" by (simp add: extract_defs)
  have c: "extract_u32 ''0'' = Some 0" by (simp add: extract_defs)
  have "main_model binary64 rev 4 (Finite 0) [''pi'', ''abc'']
      = Some \<lparr>status = 1, cerr = ''Niepoprawna wartosc n: abc'' @ [CHR 0x0A],
              cout = [], threads = [], partial_sums = []\<rparr>"
    using invalid_argument_exits [of "[''pi'', ''abc'']" binary64 rev 4 "Finite 0"] a by simp
  moreover have "main_model binary64 rev 4 (Finite 0) [''pi'', ''1000'', ''0'']
      = Some \<lparr>status = 1, cerr = ''Niepoprawna liczba watkow: 0'' @ [CHR 0x0A],
              cout = [], threads = [], partial_sums = []\<rparr>"
    using invalid_argument_exits [of "[''pi'', ''1000'', ''0'']" binary64 rev 4 "Finite 0"] b c
    by simp
  ultimately show ?thesis by (rule conjI)
qed

text \<open>
  Claim C5 as stated fails: the argument \<open>12abc\<close> is not numeric, yet the extraction reads
  \<open>12\<close>, leaves \<open>abc\<close> in the stream, and \<open>main\<close> runs with \<open>n = 12\<close> and returns \<open>0\<close>.
\<close>

theorem trailing_text_accepted:
  "\<not> spec_numeric ''12abc''
   \<and> map_option status (main_model binary64 id 4 (Finite 0) [''pi'', ''12abc'']) = Some 0
   \<and> map_option (length \<circ> threads) (main_model binary64 id 4 (Finite 0) [''pi'', ''12abc'']) = Some 4"
proof -
  have pn: "parse_n [''pi'', ''12abc''] = Inr 12"
    by (simp add: parse_n_def extract_defs)
  have pw: "parse_num_threads 4 [''pi'', ''12abc''] = Inr 4"
    by (simp add: parse_num_threads_def)
  have cl: "clamp_threads 12 4 = 4" by (simp add: clamp_threads_def)
  have "\<not> spec_numeric ''12abc''" by (simp add: spec_numeric_def isdigit_def)
  moreover from main_model_computes [where sched = id and A = binary64 and elapsed = "Finite 0", OF _ pn pw]
  obtain r where "main_model binary64 id 4 (Finite 0) [''pi'', ''12abc''] = Some r" "status r = 0"
    "threads r = spawn 12 4 (fdiv binary64 (flit binary64 1) (of_u64 binary64 12)) 0"
    by (auto simp: cl)
  ultimately show ?thesis by (simp add: spawn_eq)
qed

section \<open>Properties of the rounding\<close>

lemma bit_length_bounds:
  "0 < n \<Longrightarrow> 1 \<le> bit_length n \<and> 2 ^ nat (bit_length n - 1) \<le> n \<and> n < 2 ^ nat (bit_length n)"
proof (induction n rule: bit_length.induct)
  case (1 n)
  show ?case
  proof (cases "n = 1")
    case True
    have "bit_length 1 = 1" by (simp add: bit_length.simps [of 1] bit_length.simps [of 0])
    with True show ?thesis by simp
  next
    case False
    with "1.prems" have h: "0 < n div 2" "\<not> n \<le> 0" by simp_all
    from "1.IH" [OF h(2) h(1)]
    have ih: "1 \<le> bit_length (n div 2)" "2 ^ nat (bit_length (n div 2) - 1) \<le> n div 2"
      "n div 2 < 2 ^ nat (bit_length (n div 2))" by simp_all
    have bl: "bit_length n = 1 + bit_length (n div 2)"
      using h(2) by (subst bit_length.simps) simp
    have e1: "nat (bit_length n - 1) = Suc (nat (bit_length (n div 2) - 1))"
      using ih(1) bl by simp
    have e2: "nat (bit_length n) = Suc (nat (bit_length (n div 2)))"
      using ih(1) bl by simp
    have "2 * 2 ^ nat (bit_length (n div 2) - 1) \<le> 2 * (n div 2)" using ih(2) by simp
    also have "\<dots> \<le> n" by simp
    finally have lo: "2 ^ nat (bit_length n - 1) \<le> n" by (simp add: e1)
    have "n div 2 + 1 \<le> 2 ^ nat (bit_length (n div 2))" using ih(3) by simp
    then have "2 * (n div 2) + 2 \<le> 2 * 2 ^ nat (bit_length (n div 2))" by simp
    moreover have "n < 2 * (n div 2) + 2" by presburger
    ultimately have hi: "n < 2 ^ nat (bit_length n)" by (simp add: e2)
    from lo hi bl ih(1) show ?thesis by simp
  qed
qed

lemma bit_length_powi:
  assumes "0 < n"
  shows "2 powi (bit_length n - 1) \<le> (of_int n :: rat)" and "(of_int n :: rat) < 2 powi bit_length n"
proof -
  from bit_length_bounds [OF assms]
  have b: "1 \<le> bit_length n" "2 ^ nat (bit_length n - 1) \<le> n" "n < 2 ^ nat (bit_length n)"
    by simp_all
  have "(2::rat) powi (bit_length n - 1) = 2 ^ nat (bit_length n - 1)"
    using b(1) by (simp add: power_int_nonneg_exp)
  also have "\<dots> = of_int (2 ^ nat (bit_length n - 1))" by simp
  also have "\<dots> \<le> of_int n" using b(2) by (simp only: of_int_le_iff)
  finally show "2 powi (bit_length n - 1) \<le> (of_int n :: rat)" .
  have "(of_int n :: rat) < of_int (2 ^ nat (bit_length n))" using b(3) by (simp only: of_int_less_iff)
  also have "\<dots> = 2 ^ nat (bit_length n)" by simp
  also have "\<dots> = 2 powi bit_length n" using b(1) by (simp add: power_int_nonneg_exp)
  finally show "(of_int n :: rat) < 2 powi bit_length n" .
qed

lemma ilog2_bounds:
  assumes "0 < q"
  shows "2 powi ilog2 q \<le> q" and "q < 2 powi (ilog2 q + 1)"
proof -
  have "2 powi ilog2 q \<le> q \<and> q < 2 powi (ilog2 q + 1)"
  proof (cases "1 \<le> q")
    case True
    then have f: "0 < \<lfloor>q\<rfloor>" by simp
    have e: "ilog2 q = bit_length \<lfloor>q\<rfloor> - 1" using True by (simp add: ilog2_def)
    have "2 powi (bit_length \<lfloor>q\<rfloor> - 1) \<le> (of_int \<lfloor>q\<rfloor> :: rat)" using bit_length_powi(1) [OF f] .
    also have "\<dots> \<le> q" by simp
    finally have lo: "2 powi ilog2 q \<le> q" by (simp add: e)
    have "of_int (\<lfloor>q\<rfloor> + 1) \<le> (2::rat) powi bit_length \<lfloor>q\<rfloor>"
    proof -
      from bit_length_bounds [OF f] have b: "1 \<le> bit_length \<lfloor>q\<rfloor>" "\<lfloor>q\<rfloor> + 1 \<le> 2 ^ nat (bit_length \<lfloor>q\<rfloor>)"
        by simp_all
      have "(of_int (\<lfloor>q\<rfloor> + 1) :: rat) \<le> of_int (2 ^ nat (bit_length \<lfloor>q\<rfloor>))"
        using b(2) by (simp only: of_int_le_iff)
      also have "\<dots> = 2 powi bit_length \<lfloor>q\<rfloor>" using b(1) by (simp add: power_int_nonneg_exp)
      finally show ?thesis .
    qed
    moreover have "q < of_int (\<lfloor>q\<rfloor> + 1)" by linarith
    ultimately have "q < 2 powi (ilog2 q + 1)" by (simp add: e)
    with lo show ?thesis by simp
  next
    case False
    define c where "c = \<lceil>1 / q\<rceil> - 1"
    define k where "k = bit_length c"
    have q1: "q < 1" using False by simp
    then have "1 < 1 / q" using assms by (simp add: field_simps)
    then have "1 < \<lceil>1 / q\<rceil>" by (simp add: less_ceiling_iff)
    then have c: "0 < c" by (simp add: c_def)
    have e: "ilog2 q = - k" using False by (simp add: ilog2_def k_def c_def)
    from bit_length_bounds [OF c] have b: "1 \<le> k" "2 ^ nat (k - 1) \<le> c" "c + 1 \<le> 2 ^ nat k"
      by (simp_all add: k_def)
    have "1 / q \<le> of_int (c + 1)" by (simp add: c_def)
    also have "\<dots> \<le> of_int (2 ^ nat k)" using b(3) by (simp only: of_int_le_iff)
    also have "\<dots> = 2 powi k" using b(1) by (simp add: power_int_nonneg_exp)
    finally have "1 / q \<le> 2 powi k" .
    then have "1 \<le> q * 2 powi k" using assms by (simp add: field_simps)
    then have lo: "2 powi (- k) \<le> q"
      by (simp add: power_int_minus field_simps)
    have "(2::rat) powi (k - 1) = of_int (2 ^ nat (k - 1))" using b(1) by (simp add: power_int_nonneg_exp)
    also have "\<dots> \<le> of_int c" using b(2) by (simp only: of_int_le_iff)
    also have "\<dots> < 1 / q" by (simp add: c_def) linarith
    finally have "2 powi (k - 1) < 1 / q" .
    then have "q * 2 powi (k - 1) < 1" using assms by (simp add: field_simps)
    then have "q < 1 / 2 powi (k - 1)" by (simp add: pos_less_divide_eq)
    also have "1 / 2 powi (k - 1) = (2::rat) powi (- (k - 1))" by (simp only: power_int_minus_divide)
    finally have hi: "q < 2 powi (- k + 1)" by (simp add: algebra_simps)
    from lo hi show ?thesis by (simp add: e)
  qed
  then show "2 powi ilog2 q \<le> q" and "q < 2 powi (ilog2 q + 1)" by simp_all
qed

lemma ilog2_unique:
  assumes "2 powi e \<le> q" and "q < 2 powi (e + 1)"
  shows "ilog2 q = e"
proof -
  have q: "0 < q" using assms(1) by (rule less_le_trans [rotated]) simp
  note b = ilog2_bounds [OF q]
  have "\<not> e < ilog2 q"
  proof
    assume "e < ilog2 q"
    then have "(2::rat) powi (e + 1) \<le> 2 powi ilog2 q" by (intro power_int_increasing) simp_all
    with b(1) assms(2) show False by simp
  qed
  moreover have "\<not> ilog2 q < e"
  proof
    assume "ilog2 q < e"
    then have "(2::rat) powi (ilog2 q + 1) \<le> 2 powi e" by (intro power_int_increasing) simp_all
    with b(2) assms(1) show False by simp
  qed
  ultimately show ?thesis by simp
qed

lemma round_to_even_cases: "round_to_even y = \<lfloor>y\<rfloor> \<or> round_to_even y = \<lfloor>y\<rfloor> + 1"
  by (simp add: round_to_even_def Let_def)

lemma round_to_even_of_int [simp]: "round_to_even (of_int k) = k"
  by (simp add: round_to_even_def)

lemma round_to_even_ge:
  assumes "of_int k \<le> y"
  shows "k \<le> round_to_even y"
proof -
  have "k \<le> \<lfloor>y\<rfloor>" using assms by (simp add: le_floor_iff)
  then show ?thesis using round_to_even_cases [of y] by auto
qed

lemma round_to_even_le:
  assumes "y \<le> of_int k"
  shows "round_to_even y \<le> k"
proof (cases "y = of_int k")
  case True
  then show ?thesis by simp
next
  case False
  with assms have "y < of_int k" by simp
  then have "\<lfloor>y\<rfloor> < k" by (simp add: floor_less_iff)
  then show ?thesis using round_to_even_cases [of y] by auto
qed

lemma round_to_even_div:
  assumes "0 < b"
  shows "round_to_even (of_int a / of_int b) = round_div a b"
proof -
  let ?q = "(of_int a / of_int b :: rat)"
  have f: "\<lfloor>?q\<rfloor> = a div b" by (simp add: floor_divide_of_int_eq)
  have "of_int a = (of_int (a div b) * of_int b + of_int (a mod b) :: rat)"
    by (metis div_mult_mod_eq of_int_add of_int_mult)
  then have r: "?q - of_int (a div b) = of_int (a mod b) / of_int b"
    using assms by (simp add: field_simps)
  have lt: "(of_int (a mod b) / of_int b < (1 / 2 :: rat)) = (2 * (a mod b) < b)"
  proof -
    have "(of_int (a mod b) / of_int b < (1 / 2 :: rat)) = (of_int (2 * (a mod b)) < (of_int b :: rat))"
      using assms by (simp add: field_simps)
    then show ?thesis by (simp only: of_int_less_iff)
  qed
  have gt: "((1 / 2 :: rat) < of_int (a mod b) / of_int b) = (b < 2 * (a mod b))"
  proof -
    have "((1 / 2 :: rat) < of_int (a mod b) / of_int b) = ((of_int b :: rat) < of_int (2 * (a mod b)))"
      using assms by (simp add: field_simps)
    then show ?thesis by (simp only: of_int_less_iff)
  qed
  show ?thesis
    unfolding round_to_even_def round_div_def Let_def f r lt gt ..
qed

text \<open>The rounded value of a positive rational, before the overflow test.\<close>

lemma rnd_pos_unfold:
  assumes "0 < q"
  shows "rnd q = (let e = max (ilog2 q) (- 1022); u = 2 powi (e - 52);
                      r = of_int (round_to_even (q / u)) * u
                  in if 2 ^ 1024 \<le> r then PInf else Finite r)"
proof -
  have "0 \<le> round_to_even (q / 2 powi e')" for e'
    using assms by (intro round_to_even_ge) simp
  then have "0 \<le> rat_of_int (round_to_even (q / 2 powi e')) * 2 powi e'" for e'
    by simp
  then show ?thesis using assms by (simp add: rnd_def Let_def abs_of_pos abs_of_nonneg)
qed

lemma anchor_upper:
  assumes q: "0 < q" and le: "q \<le> 2 powi t" and t: "- 1074 \<le> t"
  defines "e \<equiv> max (ilog2 q) (- 1022)"
  shows "of_int (round_to_even (q / 2 powi (e - 52))) * 2 powi (e - 52) \<le> (2::rat) powi t"
proof -
  have "ilog2 q \<le> t"
  proof (rule ccontr)
    assume "\<not> ilog2 q \<le> t"
    then have "(2::rat) powi (t + 1) \<le> 2 powi ilog2 q" by (intro power_int_increasing) simp_all
    moreover have "(2::rat) powi t < 2 powi (t + 1)" by (intro power_int_strict_increasing) simp_all
    ultimately show False using ilog2_bounds(1) [OF q] le by simp
  qed
  then have et: "e - 52 \<le> t" using t by (simp add: e_def)
  define N :: int where "N = 2 ^ nat (t - (e - 52))"
  have N: "(of_int N :: rat) = 2 powi (t - (e - 52))"
    using et by (simp add: N_def power_int_nonneg_exp)
  have split: "(2::rat) powi t = of_int N * 2 powi (e - 52)"
    unfolding N by (simp add: power_int_add [symmetric])
  have "q / 2 powi (e - 52) \<le> of_int N"
    using le by (simp add: split field_simps)
  then have "round_to_even (q / 2 powi (e - 52)) \<le> N" by (rule round_to_even_le)
  then have "(of_int (round_to_even (q / 2 powi (e - 52))) :: rat) \<le> of_int N"
    by (simp only: of_int_le_iff)
  then show ?thesis by (simp add: split mult_right_mono)
qed

lemma anchor_lower:
  assumes q: "0 < q" and le: "2 powi t \<le> q" and t: "- 1074 \<le> t"
  defines "e \<equiv> max (ilog2 q) (- 1022)"
  shows "(2::rat) powi t \<le> of_int (round_to_even (q / 2 powi (e - 52))) * 2 powi (e - 52)"
proof (cases "e - 52 \<le> t")
  case True
  define N :: int where "N = 2 ^ nat (t - (e - 52))"
  have N: "(of_int N :: rat) = 2 powi (t - (e - 52))"
    using True by (simp add: N_def power_int_nonneg_exp)
  have split: "(2::rat) powi t = of_int N * 2 powi (e - 52)"
    unfolding N by (simp add: power_int_add [symmetric])
  have "of_int N \<le> q / 2 powi (e - 52)"
    using le by (simp add: split field_simps)
  then have "N \<le> round_to_even (q / 2 powi (e - 52))" by (rule round_to_even_ge)
  then have "(of_int N :: rat) \<le> of_int (round_to_even (q / 2 powi (e - 52)))"
    by (simp only: of_int_le_iff)
  then show ?thesis by (simp add: split mult_right_mono)
next
  case False
  with t have e: "e = ilog2 q" and te: "t \<le> e" by (simp_all add: e_def max_def split: if_splits)
  have split: "(2::rat) powi e = of_int (2 ^ 52) * 2 powi (e - 52)"
  proof -
    have "(2::rat) powi (52 + (e - 52)) = 2 powi 52 * 2 powi (e - 52)"
      by (rule power_int_add) simp
    moreover have "(2::rat) powi 52 = of_int (2 ^ 52)" by simp
    ultimately show ?thesis by (simp del: power_int_numeral of_int_power)
  qed
  have "2 powi e \<le> q" using ilog2_bounds(1) [OF q] by (simp add: e)
  then have "of_int (2 ^ 52) \<le> q / 2 powi (e - 52)"
    by (simp add: split field_simps)
  then have "2 ^ 52 \<le> round_to_even (q / 2 powi (e - 52))" by (rule round_to_even_ge)
  then have "(of_int (2 ^ 52) :: rat) \<le> of_int (round_to_even (q / 2 powi (e - 52)))"
    by (simp only: of_int_le_iff)
  then have "(2::rat) powi e \<le> of_int (round_to_even (q / 2 powi (e - 52))) * 2 powi (e - 52)"
    unfolding split by (simp add: mult_right_mono)
  moreover have "(2::rat) powi t \<le> 2 powi e" using te by (intro power_int_increasing) simp_all
  ultimately show ?thesis by simp
qed

lemma rnd_upper:
  assumes "0 \<le> q" and "q \<le> 2 powi t" and "- 1074 \<le> t" and "t \<le> 1023"
  shows "\<exists>r. rnd q = Finite r \<and> 0 \<le> r \<and> r \<le> 2 powi t"
proof (cases "q = 0")
  case True
  then show ?thesis by (simp add: rnd_def)
next
  case False
  with assms(1) have q: "0 < q" by simp
  define e where "e = max (ilog2 q) (- 1022)"
  define r where "r = rat_of_int (round_to_even (q / 2 powi (e - 52))) * 2 powi (e - 52)"
  have up: "r \<le> 2 powi t"
    unfolding r_def e_def using q assms(2,3) by (rule anchor_upper)
  have "0 \<le> round_to_even (q / 2 powi (e - 52))" using q by (intro round_to_even_ge) simp
  then have nonneg: "0 \<le> r" by (simp add: r_def)
  have "(2::rat) powi t \<le> 2 powi 1023" using assms(4) by (intro power_int_increasing) simp_all
  also have "\<dots> < 2 ^ 1024" by simp
  finally have "r < 2 ^ 1024" using up by simp
  then have "rnd q = Finite r"
    using rnd_pos_unfold [OF q] by (simp add: Let_def e_def r_def)
  with up nonneg show ?thesis by simp
qed

lemma rnd_between:
  assumes "2 powi s \<le> q" and "q \<le> 2 powi t" and "- 1074 \<le> s" and "- 1074 \<le> t" and "t \<le> 1023"
  shows "\<exists>r. rnd q = Finite r \<and> 2 powi s \<le> r \<and> r \<le> 2 powi t"
proof -
  have q: "0 < q" using assms(1) by (rule less_le_trans [rotated]) simp
  define e where "e = max (ilog2 q) (- 1022)"
  define r where "r = rat_of_int (round_to_even (q / 2 powi (e - 52))) * 2 powi (e - 52)"
  have up: "r \<le> 2 powi t"
    unfolding r_def e_def using q assms(2,4) by (rule anchor_upper)
  have lo: "2 powi s \<le> r"
    unfolding r_def e_def using q assms(1,3) by (rule anchor_lower)
  have "(2::rat) powi t \<le> 2 powi 1023" using assms(5) by (intro power_int_increasing) simp_all
  also have "\<dots> < 2 ^ 1024" by simp
  finally have "r < 2 ^ 1024" using up by simp
  then have "rnd q = Finite r"
    using rnd_pos_unfold [OF q] by (simp add: Let_def e_def r_def)
  with up lo show ?thesis by simp
qed

lemma rnd_power_of_two:
  assumes "- 1074 \<le> t" and "t \<le> 1023"
  shows "rnd (2 powi t) = Finite (2 powi t)"
  using rnd_between [of t "2 powi t" t] assms by auto

lemma rnd_cert:
  fixes a b m :: int and k :: nat
  assumes q: "q = of_int a / of_int b" and b: "0 < b"
    and lo: "2 ^ 52 * b \<le> a * 2 ^ k" and hi: "a * 2 ^ k < 2 ^ 53 * b" and k: "k \<le> 1074"
    and m: "m = round_div (a * 2 ^ k) b" and r: "r = of_int m / 2 ^ k"
  shows "rnd q = Finite r"
proof -
  define e :: int where "e = 52 - int k"
  have u: "(2::rat) powi (e - 52) = 1 / 2 ^ k"
    by (simp add: e_def power_int_minus_divide)
  have scaled: "q * 2 ^ k = of_int (a * 2 ^ k) / of_int b" by (simp add: q)
  have "(of_int (2 ^ 52 * b) :: rat) \<le> of_int (a * 2 ^ k)" using lo by (simp only: of_int_le_iff)
  then have l1: "2 ^ 52 \<le> q * 2 ^ k" using b by (simp add: scaled field_simps)
  have "(of_int (a * 2 ^ k) :: rat) < of_int (2 ^ 53 * b)" using hi by (simp only: of_int_less_iff)
  then have h1: "q * 2 ^ k < 2 ^ 53" using b by (simp add: scaled field_simps)
  have e52: "(2::rat) powi e = 2 ^ 52 / 2 ^ k"
    by (simp add: e_def power_int_diff)
  have e53: "(2::rat) powi (e + 1) = 2 ^ 53 / 2 ^ k"
  proof -
    have "e + 1 = 53 - int k" by (simp add: e_def)
    then show ?thesis by (simp add: power_int_diff)
  qed
  have qlo: "2 powi e \<le> q" unfolding e52 using l1 by (simp add: field_simps)
  have qhi: "q < 2 powi (e + 1)" unfolding e53 using h1 by (simp add: field_simps)
  have qpos: "0 < q" using qlo by (rule less_le_trans [rotated]) simp
  have il: "ilog2 q = e" using qlo qhi by (rule ilog2_unique)
  have emax: "max (ilog2 q) (- 1022) = e" using k by (simp add: il e_def)
  have rk: "round_to_even (q * 2 ^ k) = m"
    unfolding scaled m using b by (rule round_to_even_div)
  then have rm: "round_to_even (q / 2 powi (e - 52)) = m"
    by (simp add: u)
  have "q * 2 ^ k \<le> of_int (2 ^ 53)" using h1 by simp
  then have "round_to_even (q * 2 ^ k) \<le> 2 ^ 53" by (rule round_to_even_le)
  then have "m \<le> 2 ^ 53" using rm by (simp add: u)
  then have "(of_int m :: rat) \<le> of_int (2 ^ 53)" by (simp only: of_int_le_iff)
  then have "(of_int m :: rat) \<le> 2 ^ 53 * 2 ^ k"
    by (rule order_trans) (simp add: mult_le_cancel_left1)
  then have "r \<le> 2 ^ 53" by (simp add: r field_simps)
  also have "\<dots> < (2::rat) ^ 1024" by simp
  finally have small: "r < 2 ^ 1024" .
  have R: "rat_of_int (round_to_even (q / 2 powi (e - 52))) * 2 powi (e - 52) = r"
    by (simp add: rk u r)
  have "rnd q = (if 2 ^ 1024 \<le> r then PInf else Finite r)"
    using rnd_pos_unfold [OF qpos] unfolding Let_def emax R .
  with small show ?thesis by (simp only: not_le [symmetric] if_False)
qed

section \<open>Evaluating the program on binary64\<close>

text \<open>
  The roundings that occur in the runs with \<open>n = 1\<close> and \<open>n = 5\<close>, each checked against
  \<open>rnd\<close> through \<open>rnd_cert\<close>.
\<close>

lemma binary64_simps:
  "fadd binary64 = d_add" "fsub binary64 = d_sub" "fmul binary64 = d_mul" "fdiv binary64 = d_div"
  "fabs binary64 = d_abs" "of_u64 binary64 w = rnd (of_nat (unat w))" "flit binary64 = rnd"
  by (simp_all add: binary64_def)

lemma rnd_value_1: "rnd (1) = Finite (1)"
  by (rule rnd_cert [where a = 1 and b = 1 and k = 52 and m = 4503599627370496])
    (simp_all add: round_div_def)

lemma rnd_value_2: "rnd (0) = Finite (0)"
  by (simp add: rnd_def)

lemma rnd_value_3: "rnd (1 / 2) = Finite (1 / 2)"
  by (rule rnd_cert [where a = 1 and b = 2 and k = 53 and m = 4503599627370496])
    (simp_all add: round_div_def)

lemma rnd_value_4: "rnd (1 / 4) = Finite (1 / 4)"
  by (rule rnd_cert [where a = 1 and b = 4 and k = 54 and m = 4503599627370496])
    (simp_all add: round_div_def)

lemma rnd_value_5: "rnd (5 / 4) = Finite (5 / 4)"
  by (rule rnd_cert [where a = 5 and b = 4 and k = 52 and m = 5629499534213120])
    (simp_all add: round_div_def)

lemma rnd_value_6: "rnd (4) = Finite (4)"
  by (rule rnd_cert [where a = 4 and b = 1 and k = 50 and m = 4503599627370496])
    (simp_all add: round_div_def)

lemma rnd_value_7: "rnd (16 / 5) = Finite (3602879701896397 / 1125899906842624)"
  by (rule rnd_cert [where a = 16 and b = 5 and k = 51 and m = 7205759403792794])
    (simp_all add: round_div_def)

lemma rnd_value_8: "rnd (3602879701896397 / 1125899906842624) = Finite (3602879701896397 / 1125899906842624)"
  by (rule rnd_cert [where a = 3602879701896397 and b = 1125899906842624 and k = 51 and m = 7205759403792794])
    (simp_all add: round_div_def)

lemma rnd_value_9: "rnd (1 / 16) = Finite (1 / 16)"
  by (rule rnd_cert [where a = 1 and b = 16 and k = 56 and m = 4503599627370496])
    (simp_all add: round_div_def)

lemma rnd_value_10: "rnd (17 / 16) = Finite (17 / 16)"
  by (rule rnd_cert [where a = 17 and b = 16 and k = 52 and m = 4785074604081152])
    (simp_all add: round_div_def)

lemma rnd_value_11: "rnd (64 / 17) = Finite (4238682002231055 / 1125899906842624)"
  by (rule rnd_cert [where a = 64 and b = 17 and k = 51 and m = 8477364004462110])
    (simp_all add: round_div_def)

lemma dx_1: "fdiv binary64 (flit binary64 1) (of_u64 binary64 1) = Finite 1"
  by (simp add: binary64_simps
      rnd_value_1 rnd_value_2 rnd_value_3 rnd_value_4 rnd_value_5 rnd_value_6 rnd_value_7
      rnd_value_8)

lemma midpoint_1: "midpoint binary64 (Finite 1) 0 = Finite (1 / 2)"
  by (simp add: midpoint_def binary64_simps
      rnd_value_1 rnd_value_2 rnd_value_3 rnd_value_4 rnd_value_5 rnd_value_6 rnd_value_7
      rnd_value_8)

lemma integrand_1: "integrand binary64 (Finite 1) 0 = Finite (3602879701896397 / 1125899906842624)"
  by (simp add: integrand_def denominator_def midpoint_def Let_def binary64_simps
      rnd_value_1 rnd_value_2 rnd_value_3 rnd_value_4 rnd_value_5 rnd_value_6 rnd_value_7
      rnd_value_8)

lemma mk_task_1: "mk_task 1 1 dx 0 = \<lparr>task_t = 0, task_start = 0, task_end = 1, task_dx = dx\<rparr>"
  by (simp add: mk_task_def start_idx_def end_idx_def chunk_size_def base_chunk_def remainder_def)

lemma local_sum_1: "local_sum binary64 (mk_task 1 1 (Finite 1) 0) = Finite (3602879701896397 / 1125899906842624)"
  unfolding mk_task_1
  by (simp add: local_sum_foldl integrand_1 binary64_simps
      rnd_value_1 rnd_value_2 rnd_value_3 rnd_value_4 rnd_value_5 rnd_value_6 rnd_value_7
      rnd_value_8)

lemma estimate_1:
  assumes "\<And>ts. mset (sched ts) = mset ts"
  shows "pi_approx binary64 sched 1 1 = Some (Finite (3602879701896397 / 1125899906842624))"
  using pi_approx_ordered [OF assms, of binary64 1 1]
  by (simp add: Let_def dx_1 local_sum_1 binary64_simps
      rnd_value_1 rnd_value_2 rnd_value_3 rnd_value_4 rnd_value_5 rnd_value_6 rnd_value_7
      rnd_value_8)

lemma rnd_value_12: "rnd (5) = Finite (5)"
  by (rule rnd_cert [where a = 5 and b = 1 and k = 50 and m = 5629499534213120])
    (simp_all add: round_div_def)

lemma rnd_value_13: "rnd (1 / 5) = Finite (3602879701896397 / 18014398509481984)"
  by (rule rnd_cert [where a = 1 and b = 5 and k = 55 and m = 7205759403792794])
    (simp_all add: round_div_def)

lemma rnd_value_14: "rnd (3602879701896397 / 36028797018963968) = Finite (3602879701896397 / 36028797018963968)"
  by (rule rnd_cert [where a = 3602879701896397 and b = 36028797018963968 and k = 56 and m = 7205759403792794])
    (simp_all add: round_div_def)

lemma rnd_value_15: "rnd (12980742146337070512478121581609 / 1298074214633706907132624082305024) = Finite (1441151880758559 / 144115188075855872)"
  by (rule rnd_cert [where a = 12980742146337070512478121581609 and b = 1298074214633706907132624082305024 and k = 59 and m = 5764607523034236])
    (simp_all add: round_div_def)

lemma rnd_value_16: "rnd (145556339956614431 / 144115188075855872) = Finite (4548635623644201 / 4503599627370496)"
  by (rule rnd_cert [where a = 145556339956614431 and b = 144115188075855872 and k = 52 and m = 4548635623644201])
    (simp_all add: round_div_def)

lemma rnd_value_17: "rnd (18014398509481984 / 4548635623644201) = Finite (1114752383012499 / 281474976710656)"
  by (rule rnd_cert [where a = 18014398509481984 and b = 4548635623644201 and k = 51 and m = 8918019064099992])
    (simp_all add: round_div_def)

lemma rnd_value_18: "rnd (1114752383012499 / 281474976710656) = Finite (1114752383012499 / 281474976710656)"
  by (rule rnd_cert [where a = 1114752383012499 and b = 281474976710656 and k = 51 and m = 8918019064099992])
    (simp_all add: round_div_def)

lemma rnd_value_19: "rnd (3 / 2) = Finite (3 / 2)"
  by (rule rnd_cert [where a = 3 and b = 2 and k = 52 and m = 6755399441055744])
    (simp_all add: round_div_def)

lemma rnd_value_20: "rnd (10808639105689191 / 36028797018963968) = Finite (1351079888211149 / 4503599627370496)"
  by (rule rnd_cert [where a = 10808639105689191 and b = 36028797018963968 and k = 54 and m = 5404319552844596])
    (simp_all add: round_div_def)

lemma rnd_value_21: "rnd (1825416864328650878587207900201 / 20282409603651670423947251286016) = Finite (1621295865853379 / 18014398509481984)"
  by (rule rnd_cert [where a = 1825416864328650878587207900201 and b = 20282409603651670423947251286016 and k = 56 and m = 6485183463413516])
    (simp_all add: round_div_def)

lemma rnd_value_22: "rnd (19635694375335363 / 18014398509481984) = Finite (4908923593833841 / 4503599627370496)"
  by (rule rnd_cert [where a = 19635694375335363 and b = 18014398509481984 and k = 52 and m = 4908923593833841])
    (simp_all add: round_div_def)

lemma rnd_value_23: "rnd (18014398509481984 / 4908923593833841) = Finite (8263485554808249 / 2251799813685248)"
  by (rule rnd_cert [where a = 18014398509481984 and b = 4908923593833841 and k = 51 and m = 8263485554808249])
    (simp_all add: round_div_def)

lemma rnd_value_24: "rnd (17181504618908241 / 2251799813685248) = Finite (1073844038681765 / 140737488355328)"
  by (rule rnd_cert [where a = 17181504618908241 and b = 2251799813685248 and k = 50 and m = 8590752309454120])
    (simp_all add: round_div_def)

lemma rnd_value_25: "rnd (2) = Finite (2)"
  by (rule rnd_cert [where a = 2 and b = 1 and k = 51 and m = 4503599627370496])
    (simp_all add: round_div_def)

lemma rnd_value_26: "rnd (5 / 2) = Finite (5 / 2)"
  by (rule rnd_cert [where a = 5 and b = 2 and k = 51 and m = 5629499534213120])
    (simp_all add: round_div_def)

lemma rnd_value_27: "rnd (18014398509481985 / 36028797018963968) = Finite (1 / 2)"
  by (rule rnd_cert [where a = 18014398509481985 and b = 36028797018963968 and k = 53 and m = 4503599627370496])
    (simp_all add: round_div_def)

lemma rnd_value_28: "rnd (12193632011350517 / 1125899906842624) = Finite (3048408002837629 / 281474976710656)"
  by (rule rnd_cert [where a = 12193632011350517 and b = 1125899906842624 and k = 49 and m = 6096816005675258])
    (simp_all add: round_div_def)

lemma rnd_value_29: "rnd (3) = Finite (3)"
  by (rule rnd_cert [where a = 3 and b = 1 and k = 51 and m = 6755399441055744])
    (simp_all add: round_div_def)

lemma rnd_value_30: "rnd (7 / 2) = Finite (7 / 2)"
  by (rule rnd_cert [where a = 7 and b = 2 and k = 51 and m = 7881299347898368])
    (simp_all add: round_div_def)

lemma rnd_value_31: "rnd (25220157913274779 / 36028797018963968) = Finite (6305039478318695 / 9007199254740992)"
  by (rule rnd_cert [where a = 25220157913274779 and b = 36028797018963968 and k = 53 and m = 6305039478318695])
    (simp_all add: round_div_def)

lemma rnd_value_32: "rnd (39753522823157281596983986503025 / 81129638414606681695789005144064) = Finite (4413527634823087 / 9007199254740992)"
  by (rule rnd_cert [where a = 39753522823157281596983986503025 and b = 81129638414606681695789005144064 and k = 54 and m = 8827055269646174])
    (simp_all add: round_div_def)

lemma rnd_value_33: "rnd (13420726889564079 / 9007199254740992) = Finite (838795430597755 / 562949953421312)"
  by (rule rnd_cert [where a = 13420726889564079 and b = 9007199254740992 and k = 52 and m = 6710363444782040])
    (simp_all add: round_div_def)

lemma rnd_value_34: "rnd (2251799813685248 / 838795430597755) = Finite (1511275042741777 / 562949953421312)"
  by (rule rnd_cert [where a = 2251799813685248 and b = 838795430597755 and k = 51 and m = 6045100170967108])
    (simp_all add: round_div_def)

lemma rnd_value_35: "rnd (7608091048417035 / 562949953421312) = Finite (7608091048417035 / 562949953421312)"
  by (rule rnd_cert [where a = 7608091048417035 and b = 562949953421312 and k = 49 and m = 7608091048417035])
    (simp_all add: round_div_def)

lemma rnd_value_36: "rnd (9 / 2) = Finite (9 / 2)"
  by (rule rnd_cert [where a = 9 and b = 2 and k = 50 and m = 5066549580791808])
    (simp_all add: round_div_def)

lemma rnd_value_37: "rnd (32425917317067573 / 36028797018963968) = Finite (8106479329266893 / 9007199254740992)"
  by (rule rnd_cert [where a = 32425917317067573 and b = 36028797018963968 and k = 53 and m = 8106479329266893])
    (simp_all add: round_div_def)

lemma rnd_value_38: "rnd (65715007115831415416180825873449 / 81129638414606681695789005144064) = Finite (1823957849085051 / 2251799813685248)"
  by (rule rnd_cert [where a = 65715007115831415416180825873449 and b = 81129638414606681695789005144064 and k = 53 and m = 7295831396340204])
    (simp_all add: round_div_def)

lemma rnd_value_39: "rnd (4075757662770299 / 2251799813685248) = Finite (4075757662770299 / 2251799813685248)"
  by (rule rnd_cert [where a = 4075757662770299 and b = 2251799813685248 and k = 52 and m = 8151515325540598])
    (simp_all add: round_div_def)

lemma rnd_value_40: "rnd (9007199254740992 / 4075757662770299) = Finite (4976353179414913 / 2251799813685248)"
  by (rule rnd_cert [where a = 9007199254740992 and b = 4075757662770299 and k = 51 and m = 4976353179414913])
    (simp_all add: round_div_def)

lemma rnd_value_41: "rnd (35408717373083053 / 2251799813685248) = Finite (8852179343270763 / 562949953421312)"
  by (rule rnd_cert [where a = 35408717373083053 and b = 2251799813685248 and k = 49 and m = 8852179343270763])
    (simp_all add: round_div_def)

lemma rnd_value_42: "rnd (8852179343270763 / 562949953421312) = Finite (8852179343270763 / 562949953421312)"
  by (rule rnd_cert [where a = 8852179343270763 and b = 562949953421312 and k = 49 and m = 8852179343270763])
    (simp_all add: round_div_def)

lemma rnd_value_43: "rnd (31893337273416809966251745140911 / 10141204801825835211973625643008) = Finite (7081743474616611 / 2251799813685248)"
  by (rule rnd_cert [where a = 31893337273416809966251745140911 and b = 10141204801825835211973625643008 and k = 51 and m = 7081743474616611])
    (simp_all add: round_div_def)

lemma rnd_value_44: "rnd (6625429787379951 / 1125899906842624) = Finite (6625429787379951 / 1125899906842624)"
  by (rule rnd_cert [where a = 6625429787379951 and b = 1125899906842624 and k = 50 and m = 6625429787379951])
    (simp_all add: round_div_def)

lemma rnd_value_45: "rnd (4976353179414913 / 2251799813685248) = Finite (4976353179414913 / 2251799813685248)"
  by (rule rnd_cert [where a = 4976353179414913 and b = 2251799813685248 and k = 51 and m = 4976353179414913])
    (simp_all add: round_div_def)

lemma rnd_value_46: "rnd (1073844038681765 / 140737488355328) = Finite (1073844038681765 / 140737488355328)"
  by (rule rnd_cert [where a = 1073844038681765 and b = 140737488355328 and k = 50 and m = 8590752309454120])
    (simp_all add: round_div_def)

lemma rnd_value_47: "rnd (15216182096834071 / 1125899906842624) = Finite (1902022762104259 / 140737488355328)"
  by (rule rnd_cert [where a = 15216182096834071 and b = 1125899906842624 and k = 49 and m = 7608091048417036])
    (simp_all add: round_div_def)

lemma rnd_value_48: "rnd (35408717373083057 / 2251799813685248) = Finite (2213044835817691 / 140737488355328)"
  by (rule rnd_cert [where a = 35408717373083057 and b = 2251799813685248 and k = 49 and m = 8852179343270764])
    (simp_all add: round_div_def)

lemma rnd_value_49: "rnd (7973334318354203392282861759327 / 2535301200456458802993406410752) = Finite (1770435868654153 / 562949953421312)"
  by (rule rnd_cert [where a = 7973334318354203392282861759327 and b = 2535301200456458802993406410752 and k = 51 and m = 7081743474616612])
    (simp_all add: round_div_def)

lemma dx_5: "fdiv binary64 (flit binary64 1) (of_u64 binary64 5) = Finite (3602879701896397 / 18014398509481984)"
  by (simp add: binary64_simps
      rnd_value_1 rnd_value_12 rnd_value_13 rnd_value_2 rnd_value_3 rnd_value_14 rnd_value_15
      rnd_value_16 rnd_value_6 rnd_value_17 rnd_value_18 rnd_value_19 rnd_value_20 rnd_value_21
      rnd_value_22 rnd_value_23 rnd_value_24 rnd_value_25 rnd_value_26 rnd_value_27 rnd_value_4
      rnd_value_5 rnd_value_7 rnd_value_28 rnd_value_29 rnd_value_30 rnd_value_31 rnd_value_32
      rnd_value_33 rnd_value_34 rnd_value_35 rnd_value_36 rnd_value_37 rnd_value_38
      rnd_value_39 rnd_value_40 rnd_value_41 rnd_value_42 rnd_value_43 rnd_value_8 rnd_value_44
      rnd_value_45 rnd_value_46 rnd_value_47 rnd_value_48 rnd_value_49)

lemma integrand_5:
  "integrand binary64 (Finite (3602879701896397 / 18014398509481984)) 0 = Finite (1114752383012499 / 281474976710656)"
  "integrand binary64 (Finite (3602879701896397 / 18014398509481984)) 1 = Finite (8263485554808249 / 2251799813685248)"
  "integrand binary64 (Finite (3602879701896397 / 18014398509481984)) 2 = Finite (3602879701896397 / 1125899906842624)"
  "integrand binary64 (Finite (3602879701896397 / 18014398509481984)) 3 = Finite (1511275042741777 / 562949953421312)"
  "integrand binary64 (Finite (3602879701896397 / 18014398509481984)) 4 = Finite (4976353179414913 / 2251799813685248)"
  by (simp_all add: integrand_def denominator_def midpoint_def Let_def binary64_simps
      rnd_value_1 rnd_value_12 rnd_value_13 rnd_value_2 rnd_value_3 rnd_value_14 rnd_value_15
      rnd_value_16 rnd_value_6 rnd_value_17 rnd_value_18 rnd_value_19 rnd_value_20 rnd_value_21
      rnd_value_22 rnd_value_23 rnd_value_24 rnd_value_25 rnd_value_26 rnd_value_27 rnd_value_4
      rnd_value_5 rnd_value_7 rnd_value_28 rnd_value_29 rnd_value_30 rnd_value_31 rnd_value_32
      rnd_value_33 rnd_value_34 rnd_value_35 rnd_value_36 rnd_value_37 rnd_value_38
      rnd_value_39 rnd_value_40 rnd_value_41 rnd_value_42 rnd_value_43 rnd_value_8 rnd_value_44
      rnd_value_45 rnd_value_46 rnd_value_47 rnd_value_48 rnd_value_49)

lemma mk_task_5:
  "mk_task 5 1 dx 0 = \<lparr>task_t = 0, task_start = 0, task_end = 5, task_dx = dx\<rparr>"
  "mk_task 5 3 dx 0 = \<lparr>task_t = 0, task_start = 0, task_end = 2, task_dx = dx\<rparr>"
  "mk_task 5 3 dx 1 = \<lparr>task_t = 1, task_start = 2, task_end = 4, task_dx = dx\<rparr>"
  "mk_task 5 3 dx 2 = \<lparr>task_t = 2, task_start = 4, task_end = 5, task_dx = dx\<rparr>"
  by (simp_all add: mk_task_def start_idx_def end_idx_def chunk_size_def base_chunk_def remainder_def)

lemma local_sum_5:
  "local_sum binary64 (mk_task 5 1 (Finite (3602879701896397 / 18014398509481984)) 0) = Finite (8852179343270763 / 562949953421312)"
  "local_sum binary64 (mk_task 5 3 (Finite (3602879701896397 / 18014398509481984)) 0) = Finite (1073844038681765 / 140737488355328)"
  "local_sum binary64 (mk_task 5 3 (Finite (3602879701896397 / 18014398509481984)) 1) = Finite (6625429787379951 / 1125899906842624)"
  "local_sum binary64 (mk_task 5 3 (Finite (3602879701896397 / 18014398509481984)) 2) = Finite (4976353179414913 / 2251799813685248)"
  unfolding mk_task_5
  by (simp_all add: local_sum_foldl upt_conv_Cons integrand_5 binary64_simps
      rnd_value_1 rnd_value_12 rnd_value_13 rnd_value_2 rnd_value_3 rnd_value_14 rnd_value_15
      rnd_value_16 rnd_value_6 rnd_value_17 rnd_value_18 rnd_value_19 rnd_value_20 rnd_value_21
      rnd_value_22 rnd_value_23 rnd_value_24 rnd_value_25 rnd_value_26 rnd_value_27 rnd_value_4
      rnd_value_5 rnd_value_7 rnd_value_28 rnd_value_29 rnd_value_30 rnd_value_31 rnd_value_32
      rnd_value_33 rnd_value_34 rnd_value_35 rnd_value_36 rnd_value_37 rnd_value_38
      rnd_value_39 rnd_value_40 rnd_value_41 rnd_value_42 rnd_value_43 rnd_value_8 rnd_value_44
      rnd_value_45 rnd_value_46 rnd_value_47 rnd_value_48 rnd_value_49)

lemma estimates_5:
  assumes perm: "\<And>ts. mset (sched ts) = mset ts"
  shows "pi_approx binary64 sched 5 1 = Some (Finite (7081743474616611 / 2251799813685248))"
    and "pi_approx binary64 sched 5 3 = Some (Finite (1770435868654153 / 562949953421312))"
proof -
  show "pi_approx binary64 sched 5 1 = Some (Finite (7081743474616611 / 2251799813685248))"
    using pi_approx_ordered [OF perm, of binary64 5 1]
    by (simp add: Let_def dx_5 local_sum_5 binary64_simps
      rnd_value_1 rnd_value_12 rnd_value_13 rnd_value_2 rnd_value_3 rnd_value_14 rnd_value_15
      rnd_value_16 rnd_value_6 rnd_value_17 rnd_value_18 rnd_value_19 rnd_value_20 rnd_value_21
      rnd_value_22 rnd_value_23 rnd_value_24 rnd_value_25 rnd_value_26 rnd_value_27 rnd_value_4
      rnd_value_5 rnd_value_7 rnd_value_28 rnd_value_29 rnd_value_30 rnd_value_31 rnd_value_32
      rnd_value_33 rnd_value_34 rnd_value_35 rnd_value_36 rnd_value_37 rnd_value_38
      rnd_value_39 rnd_value_40 rnd_value_41 rnd_value_42 rnd_value_43 rnd_value_8 rnd_value_44
      rnd_value_45 rnd_value_46 rnd_value_47 rnd_value_48 rnd_value_49)
  have "[0..<3] = [0, 1, 2 :: nat]" by (simp add: upt_conv_Cons)
  then show "pi_approx binary64 sched 5 3 = Some (Finite (1770435868654153 / 562949953421312))"
    using pi_approx_ordered [OF perm, of binary64 5 3]
    by (simp add: Let_def dx_5 local_sum_5 binary64_simps
      rnd_value_1 rnd_value_12 rnd_value_13 rnd_value_2 rnd_value_3 rnd_value_14 rnd_value_15
      rnd_value_16 rnd_value_6 rnd_value_17 rnd_value_18 rnd_value_19 rnd_value_20 rnd_value_21
      rnd_value_22 rnd_value_23 rnd_value_24 rnd_value_25 rnd_value_26 rnd_value_27 rnd_value_4
      rnd_value_5 rnd_value_7 rnd_value_28 rnd_value_29 rnd_value_30 rnd_value_31 rnd_value_32
      rnd_value_33 rnd_value_34 rnd_value_35 rnd_value_36 rnd_value_37 rnd_value_38
      rnd_value_39 rnd_value_40 rnd_value_41 rnd_value_42 rnd_value_43 rnd_value_8 rnd_value_44
      rnd_value_45 rnd_value_46 rnd_value_47 rnd_value_48 rnd_value_49)
qed

section \<open>The divisor of the integrand\<close>

lemma rnd_literals:
  "rnd 1 = Finite 1" "rnd (1 / 2) = Finite (1 / 2)" "rnd 4 = Finite 4" "rnd 0 = Finite 0"
proof -
  show "rnd 1 = Finite 1" using rnd_power_of_two [of 0] by simp
  show "rnd (1 / 2) = Finite (1 / 2)" using rnd_power_of_two [of "- 1"] by (simp add: power_int_minus_divide)
  show "rnd 4 = Finite 4" using rnd_power_of_two [of 2] by simp
  show "rnd 0 = Finite 0" by (simp add: rnd_def)
qed

lemma of_u64_finite:
  "\<exists>r. of_u64 binary64 w = Finite r \<and> 0 \<le> r \<and> r \<le> 2 powi 64 \<and> (w \<noteq> 0 \<longrightarrow> 1 \<le> r)"
proof -
  let ?q = "(of_nat (unat w) :: rat)"
  have "unat w < 2 ^ 64" using unsigned_less [of w] by simp
  then have "?q < of_nat (2 ^ 64)" by (simp only: of_nat_less_iff)
  then have up: "?q \<le> 2 powi 64" by simp
  show ?thesis
  proof (cases "w = 0")
    case True
    then show ?thesis by (simp add: binary64_simps rnd_literals)
  next
    case False
    then have "1 \<le> unat w" by (simp add: unat_gt_0 Suc_le_eq)
    then have "(of_nat 1 :: rat) \<le> ?q" by (simp only: of_nat_le_iff)
    then have "2 powi 0 \<le> ?q" by simp
    from rnd_between [OF this up] obtain r where "rnd ?q = Finite r" "2 powi 0 \<le> r" "r \<le> 2 powi 64"
      by auto
    then show ?thesis by (auto simp: binary64_simps)
  qed
qed

lemma dx_finite:
  assumes "n \<noteq> 0"
  shows "\<exists>dx. fdiv binary64 (flit binary64 1) (of_u64 binary64 n) = Finite dx \<and> 0 \<le> dx \<and> dx \<le> 1"
proof -
  from of_u64_finite [of n] assms obtain r where r: "of_u64 binary64 n = Finite r" "1 \<le> r"
    by auto
  then have "0 \<le> 1 / r" "1 / r \<le> 2 powi 0" by simp_all
  from rnd_upper [OF this] obtain d where "rnd (1 / r) = Finite d" "0 \<le> d" "d \<le> 1" by auto
  then show ?thesis using r by (auto simp: binary64_simps rnd_literals)
qed

lemma pow2_values: "(2::rat) powi 64 = 2 ^ 64" "(2::rat) powi 65 = 2 ^ 65"
  "(2::rat) powi 130 = 2 ^ 130" "(2::rat) powi 131 = 2 ^ 131"
  by simp_all

lemma midpoint_finite:
  assumes "0 \<le> dx" and "dx \<le> 1"
  shows "\<exists>x. midpoint binary64 (Finite dx) i = Finite x \<and> 0 \<le> x \<and> x \<le> 2 ^ 65"
proof -
  from of_u64_finite [of i] obtain iv where iv: "of_u64 binary64 i = Finite iv" "0 \<le> iv" "iv \<le> 2 ^ 64"
    by (auto simp: pow2_values)
  have "0 \<le> iv + 1 / 2" "iv + 1 / 2 \<le> 2 powi 65" using iv(2,3) by (simp_all add: pow2_values)
  from rnd_upper [OF this] obtain h where h: "rnd (iv + 1 / 2) = Finite h" "0 \<le> h" "h \<le> 2 ^ 65"
    by (auto simp: pow2_values)
  have "h * dx \<le> 2 ^ 65 * 1" using h(2,3) assms by (intro mult_mono) simp_all
  then have "0 \<le> h * dx" "h * dx \<le> 2 powi 65" using h(2) assms(1) by (simp_all add: pow2_values)
  from rnd_upper [OF this] obtain x where "rnd (h * dx) = Finite x" "0 \<le> x" "x \<le> 2 ^ 65"
    by (auto simp: pow2_values)
  then show ?thesis using iv(1) h(1) by (auto simp: midpoint_def binary64_simps rnd_literals)
qed

lemma denominator_finite:
  assumes "0 \<le> dx" and "dx \<le> 1"
  shows "\<exists>d. denominator binary64 (Finite dx) i = Finite d \<and> 1 \<le> d"
proof -
  from midpoint_finite [OF assms, of i] obtain x
    where x: "midpoint binary64 (Finite dx) i = Finite x" "0 \<le> x" "x \<le> 2 ^ 65" by auto
  have "x * x \<le> 2 ^ 65 * 2 ^ 65" using x(2,3) by (intro mult_mono) simp_all
  then have "0 \<le> x * x" "x * x \<le> 2 powi 130" using x(2) by (simp_all add: pow2_values)
  from rnd_upper [OF this] obtain s where s: "rnd (x * x) = Finite s" "0 \<le> s" "s \<le> 2 ^ 130"
    by (auto simp: pow2_values)
  have "2 powi 0 \<le> 1 + s" "1 + s \<le> 2 powi 131" using s(2,3) by (simp_all add: pow2_values)
  from rnd_between [OF this] obtain d where "rnd (1 + s) = Finite d" "1 \<le> d" by auto
  then show ?thesis using x(1) s(1) by (auto simp: denominator_def Let_def binary64_simps rnd_literals)
qed

lemma rnd_saturate:
  assumes s: "0 \<le> s" "s \<le> 2 powi (a + 54)" and v: "0 \<le> v" "v \<le> 2 powi a"
    and a: "- 1076 \<le> a" "a + 54 \<le> 1023"
  shows "\<exists>r. rnd (s + v) = Finite r \<and> 0 \<le> r \<and> r \<le> 2 powi (a + 54)"
proof (cases "s + v \<le> 2 powi (a + 54)")
  case True
  show ?thesis
    by (rule rnd_upper) (use True s v a in simp_all)
next
  case False
  define q where "q = s + v"
  define t where "t = a + 54"
  have lo: "2 powi t < q" using False by (simp add: q_def t_def)
  have pa: "(2::rat) powi t = 2 ^ 52 * 2 powi (a + 2)"
  proof -
    have "(2::rat) powi (52 + (a + 2)) = 2 powi 52 * 2 powi (a + 2)"
      by (rule power_int_add) simp
    then show ?thesis by (simp add: t_def algebra_simps)
  qed
  have pb: "(2::rat) powi a = 2 powi (a + 2) / 4"
  proof -
    have "(2::rat) powi (a + 2) = 2 powi a * 2 powi 2"
      by (rule power_int_add) simp
    then show ?thesis by simp
  qed
  have hi: "q \<le> 2 powi t + 2 powi a" using s(2) v(2) by (simp add: q_def t_def)
  have "(2::rat) powi a < 2 powi t" by (intro power_int_strict_increasing) (simp_all add: t_def)
  then have "q < 2 powi t + 2 powi t" using hi by simp
  also have "\<dots> = 2 powi (t + 1)" by (simp add: power_int_add)
  finally have hi': "q < 2 powi (t + 1)" .
  have qpos: "0 < q" using lo by (rule less_trans [rotated]) simp
  have il: "ilog2 q = t" using lo hi' by (intro ilog2_unique) simp_all
  have emax: "max (ilog2 q) (- 1022) = t" using a by (simp add: il t_def)
  have u: "t - 52 = a + 2" by (simp add: t_def)
  define y where "y = q / 2 powi (a + 2)"
  have up: "0 < (2::rat) powi (a + 2)" by simp
  have y1: "2 ^ 52 < y" using lo up by (simp add: y_def pa pos_less_divide_eq)
  have "q \<le> (2 ^ 52 + 1 / 4) * 2 powi (a + 2)" using hi by (simp add: pa pb algebra_simps)
  then have y2: "y \<le> 2 ^ 52 + 1 / 4" using up by (simp add: y_def pos_divide_le_eq)
  have fl: "\<lfloor>y\<rfloor> = 2 ^ 52"
  proof (rule floor_unique)
    show "of_int (2 ^ 52) \<le> y" using y1 by simp
    show "y < of_int (2 ^ 52) + 1" using y2 by simp
  qed
  have "y - of_int \<lfloor>y\<rfloor> < 1 / 2" using y2 by (simp add: fl)
  then have re: "round_to_even y = 2 ^ 52" by (simp add: round_to_even_def Let_def fl)
  have r: "rat_of_int (round_to_even (q / 2 powi (t - 52))) * 2 powi (t - 52) = 2 powi t"
    unfolding u y_def [symmetric] re by (simp add: pa)
  have "(2::rat) powi t \<le> 2 powi 1023" using a(2) by (intro power_int_increasing) (simp_all add: t_def)
  also have "\<dots> < 2 ^ 1024" by simp
  finally have small: "\<not> 2 ^ 1024 \<le> (2::rat) powi t" by simp
  have "rnd q = (if 2 ^ 1024 \<le> (2::rat) powi t then PInf else Finite (2 powi t))"
    using rnd_pos_unfold [OF qpos] unfolding Let_def emax r .
  with small have "rnd q = Finite (2 powi t)" by (simp only: if_False)
  then show ?thesis by (simp add: q_def t_def)
qed

lemma integrand_finite:
  assumes "0 \<le> dx" and "dx \<le> 1"
  shows "\<exists>v. integrand binary64 (Finite dx) i = Finite v \<and> 0 \<le> v \<and> v \<le> 4"
proof -
  from denominator_finite [OF assms, of i] obtain d
    where d: "denominator binary64 (Finite dx) i = Finite d" "1 \<le> d" by auto
  have "4 / d \<le> 4 / 1" using d(2) by (intro divide_left_mono) simp_all
  then have "0 \<le> 4 / d" "4 / d \<le> 2 powi 2" using d(2) by simp_all
  from rnd_upper [OF this] obtain v where v: "rnd (4 / d) = Finite v" "0 \<le> v" "v \<le> 4" by auto
  have "integrand binary64 (Finite dx) i = Finite v"
    using d v(1) by (simp add: integrand_def binary64_simps rnd_literals)
  with v(2,3) show ?thesis by blast
qed

lemma foldl_d_add_finite:
  assumes terms: "\<forall>p\<in>set ps. \<exists>v. p = Finite v \<and> 0 \<le> v \<and> v \<le> 2 powi a"
    and s: "0 \<le> s" "s \<le> 2 powi (a + 54)"
    and a: "- 1076 \<le> a" "a + 54 \<le> 1023"
  shows "\<exists>r. foldl d_add (Finite s) ps = Finite r \<and> 0 \<le> r \<and> r \<le> 2 powi (a + 54)"
  using terms s
proof (induction ps arbitrary: s)
  case Nil
  then show ?case by simp
next
  case (Cons p ps)
  from Cons.prems(1) obtain v where v: "p = Finite v" "0 \<le> v" "v \<le> 2 powi a" by auto
  from rnd_saturate [OF Cons.prems(2,3) v(2,3) a] obtain r
    where r: "rnd (s + v) = Finite r" "0 \<le> r" "r \<le> 2 powi (a + 54)" by auto
  have "\<exists>r'. foldl d_add (Finite r) ps = Finite r' \<and> 0 \<le> r' \<and> r' \<le> 2 powi (a + 54)"
    using Cons.prems(1) r(2,3) by (intro Cons.IH) simp_all
  then show ?case by (simp add: v(1) r(1))
qed

lemma local_sum_finite:
  assumes "0 \<le> dx" and "dx \<le> 1" and "task_dx k = Finite dx"
  shows "\<exists>v. local_sum binary64 k = Finite v \<and> 0 \<le> v \<and> v \<le> 2 powi 56"
proof -
  let ?js = "[unat (task_start k)..<unat (task_end k)]"
  let ?ts = "map (\<lambda>j. integrand binary64 (Finite dx) (of_nat j)) ?js"
  have "\<forall>p\<in>set ?ts. \<exists>v. p = Finite v \<and> 0 \<le> v \<and> v \<le> 2 powi 2"
    using integrand_finite [OF assms(1,2)] by auto
  from foldl_d_add_finite [OF this, of 0]
  have "\<exists>r. foldl d_add (Finite 0) ?ts = Finite r \<and> 0 \<le> r \<and> r \<le> 2 powi 56" by simp
  moreover have "local_sum binary64 k = foldl d_add (Finite 0) ?ts"
    by (simp add: local_sum_foldl assms(3) foldl_map binary64_simps rnd_literals)
  ultimately show ?thesis by simp
qed

lemma compute_finite:
  assumes perm: "\<And>ts. mset (sched ts) = mset ts" and n: "n \<noteq> 0"
  shows "\<exists>ks ps p. compute binary64 sched n w = Some (ks, map Finite ps, Finite p)
     \<and> length ks = unat w \<and> (\<forall>x\<in>set ps. 0 \<le> x) \<and> 0 \<le> p"
proof -
  from dx_finite [OF n] obtain dx
    where dx: "fdiv binary64 (flit binary64 1) (of_u64 binary64 n) = Finite dx" "0 \<le> dx" "dx \<le> 1"
    by auto
  define ks where "ks = spawn n w (Finite dx) 0"
  have len: "length ks = unat w" by (simp add: ks_def spawn_eq)
  have each: "\<forall>k\<in>set ks. \<exists>v. local_sum binary64 k = Finite v \<and> 0 \<le> v \<and> v \<le> 2 powi 56"
  proof
    fix k assume "k \<in> set ks"
    then have "task_dx k = Finite dx" by (auto simp: ks_def spawn_eq mk_task_def)
    with dx(2,3) show "\<exists>v. local_sum binary64 k = Finite v \<and> 0 \<le> v \<and> v \<le> 2 powi 56"
      by (rule local_sum_finite)
  qed
  define ps where "ps = map (\<lambda>k. case local_sum binary64 k of Finite v \<Rightarrow> v | _ \<Rightarrow> 0) ks"
  have sums: "map (local_sum binary64) ks = map Finite ps"
    using each by (auto simp: ps_def)
  have nonneg: "\<forall>x\<in>set ps. 0 \<le> x" using each by (auto simp: ps_def)
  have "\<forall>p\<in>set (map Finite ps). \<exists>v. p = Finite v \<and> 0 \<le> v \<and> v \<le> 2 powi 56"
    using each unfolding sums [symmetric] by auto
  from foldl_d_add_finite [OF this, of 0]
  obtain t where t: "foldl d_add (Finite 0) (map Finite ps) = Finite t" "0 \<le> t" "t \<le> 2 powi 110"
    by auto
  have "t * dx \<le> 2 powi 110 * 1" using t(2,3) dx(2,3) by (intro mult_mono) simp_all
  then have "0 \<le> t * dx" "t * dx \<le> 2 powi 110" using t(2) dx(2) by simp_all
  from rnd_upper [OF this] obtain p where p: "rnd (t * dx) = Finite p" "0 \<le> p" by auto
  have c: "compute binary64 sched n w
      = Some (ks, map (local_sum binary64) ks,
          fmul binary64 (foldl (fadd binary64) (flit binary64 0) (map (local_sum binary64) ks))
            (Finite dx))"
    by (simp add: compute_eq [OF perm] Let_def dx(1) ks_def)
  have "fmul binary64 (foldl (fadd binary64) (flit binary64 0) (map Finite ps)) (Finite dx)
      = Finite p"
    by (simp add: binary64_simps rnd_literals t(1) p(1))
  then have "compute binary64 sched n w = Some (ks, map Finite ps, Finite p)"
    by (simp add: c sums)
  with len nonneg p(2) show ?thesis by blast
qed

text \<open>
  Claim C9. For every valid \<open>n\<close> (not zero) and every index \<open>i\<close>, in binary64 arithmetic:
  \<open>dx\<close> is finite, the divisor \<open>1.0 + x * x\<close> is a finite number that is at least \<open>1\<close>, so the
  division \<open>4.0 / (1.0 + x * x)\<close> is never by zero, and its result is a finite number between
  \<open>0\<close> and \<open>4\<close>. The computation as a whole does not fail either: for every worker count and
  every order in which the threads finish, no write is out of bounds and every partial sum and
  the estimate are finite numbers, never an infinity or a NaN.
\<close>

theorem denominator_at_least_one:
  assumes "n \<noteq> 0" and "\<And>ts. mset (sched ts) = mset ts"
  shows "(\<exists>dx d v. fdiv binary64 (flit binary64 1) (of_u64 binary64 n) = Finite dx
       \<and> denominator binary64 (Finite dx) i = Finite d \<and> 1 \<le> d
       \<and> integrand binary64 (Finite dx) i = Finite v \<and> 0 \<le> v \<and> v \<le> 4)
     \<and> (\<exists>ks ps p. compute binary64 sched n w = Some (ks, map Finite ps, Finite p))"
proof -
  from dx_finite [OF assms(1)] obtain dx
    where dx: "fdiv binary64 (flit binary64 1) (of_u64 binary64 n) = Finite dx" "0 \<le> dx" "dx \<le> 1"
    by auto
  from denominator_finite [OF dx(2,3), of i] obtain d
    where d: "denominator binary64 (Finite dx) i = Finite d" "1 \<le> d" by auto
  from integrand_finite [OF dx(2,3), of i] obtain v
    where v: "integrand binary64 (Finite dx) i = Finite v" "0 \<le> v" "v \<le> 4" by auto
  from compute_finite [OF assms(2,1), of w]
  have "\<exists>ks ps p. compute binary64 sched n w = Some (ks, map Finite ps, Finite p)" by blast
  with dx(1) d v show ?thesis by blast
qed

theorem denominator_at_least_one_witness:
  "(1 :: u64) \<noteq> 0
   \<and> (\<exists>dx d v. fdiv binary64 (flit binary64 1) (of_u64 binary64 1) = Finite dx
       \<and> denominator binary64 (Finite dx) 0 = Finite d \<and> 1 \<le> d
       \<and> integrand binary64 (Finite dx) 0 = Finite v \<and> 0 \<le> v \<and> v \<le> 4)
   \<and> (\<exists>ks ps p. compute binary64 rev 1 1 = Some (ks, map Finite ps, Finite p))"
proof -
  have h: "(1 :: u64) \<noteq> 0" by simp
  have "mset (rev ts) = mset ts" for ts :: "double task list" by simp
  from denominator_at_least_one [OF h this, of 0 1] h show ?thesis by blast
qed

section \<open>Dependence of the estimate on the worker count\<close>

lemma foldl_assoc:
  assumes assoc: "\<And>a b c. f (f a b) c = f a (f b c)" and zl: "\<And>a. f z a = a" and zr: "\<And>a. f a z = a"
  shows "foldl f s xs = f s (foldl f z xs)"
proof (induction xs arbitrary: s)
  case Nil
  then show ?case by (simp add: zr)
next
  case (Cons x xs)
  have "foldl f (f s x) xs = f (f s x) (foldl f z xs)" by (rule Cons.IH)
  also have "\<dots> = f s (f x (foldl f z xs))" by (rule assoc)
  also have "f x (foldl f z xs) = foldl f x xs" by (rule Cons.IH [symmetric])
  finally show ?case by (simp add: zl)
qed

lemma foldl_concat_assoc:
  assumes assoc: "\<And>a b c. f (f a b) c = f a (f b c)" and zl: "\<And>a. f z a = a" and zr: "\<And>a. f a z = a"
  shows "foldl f s (map (foldl f z) xss) = foldl f s (concat xss)"
proof (induction xss arbitrary: s)
  case Nil
  then show ?case by simp
next
  case (Cons xs xss)
  have "f s (foldl f z xs) = foldl f s xs"
    by (rule foldl_assoc [OF assoc zl zr, symmetric])
  then show ?case by (simp add: Cons.IH)
qed

lemma cover_mk_task:
  assumes "0 < unat w"
  shows "concat (map (\<lambda>t. [unat (task_start (mk_task n w dx (of_nat t)))
                           ..<unat (task_end (mk_task n w dx (of_nat t)))]) [0..<unat w])
     = [0..<unat n]"
proof -
  have "concat (map (\<lambda>t. [unat (task_start (mk_task n w dx (of_nat t)))
                           ..<unat (task_end (mk_task n w dx (of_nat t)))]) [0..<unat w])
      = concat (map (\<lambda>t. [spec_start (unat n) (unat w) t..<spec_start (unat n) (unat w) (Suc t)])
          [0..<unat w])"
    by (intro arg_cong [where f = concat] map_cong refl) (simp add: lo_mk_task hi_mk_task)
  also have "\<dots> = [spec_start (unat n) (unat w) 0..<spec_start (unat n) (unat w) (unat w)]"
    by (intro concat_upt_chain spec_start_mono) simp
  finally show ?thesis using assms by (simp add: spec_start_0 spec_start_total)
qed

lemma pi_approx_sequential:
  assumes assoc: "\<And>a b c. fadd A (fadd A a b) c = fadd A a (fadd A b c)"
    and zl: "\<And>a. fadd A (flit A 0) a = a" and zr: "\<And>a. fadd A a (flit A 0) = a"
    and perm: "\<And>ts. mset (sched ts) = mset ts"
    and w: "1 \<le> unat w"
  shows "pi_approx A sched n w
     = (let dx = fdiv A (flit A 1) (of_u64 A n)
        in Some (fmul A (foldl (fadd A) (flit A 0)
                          (map (\<lambda>i. integrand A dx (of_nat i)) [0..<unat n])) dx))"
proof -
  define dx where "dx = fdiv A (flit A 1) (of_u64 A n)"
  let ?f = "\<lambda>i. integrand A dx (of_nat i)"
  let ?r = "\<lambda>t. [unat (task_start (mk_task n w dx (of_nat t)))
                ..<unat (task_end (mk_task n w dx (of_nat t)))]"
  have ls: "local_sum A (mk_task n w dx (of_nat t)) = foldl (fadd A) (flit A 0) (map ?f (?r t))" for t
    by (simp add: local_sum_foldl foldl_map mk_task_def)
  have "map (\<lambda>t. local_sum A (mk_task n w dx (of_nat t))) [0..<unat w]
      = map (foldl (fadd A) (flit A 0)) (map (\<lambda>t. map ?f (?r t)) [0..<unat w])"
    by (simp add: ls)
  then have "foldl (fadd A) (flit A 0) (map (\<lambda>t. local_sum A (mk_task n w dx (of_nat t))) [0..<unat w])
      = foldl (fadd A) (flit A 0) (concat (map (\<lambda>t. map ?f (?r t)) [0..<unat w]))"
    by (simp only: foldl_concat_assoc [OF assoc zl zr])
  also have "concat (map (\<lambda>t. map ?f (?r t)) [0..<unat w]) = map ?f (concat (map ?r [0..<unat w]))"
    by (simp add: map_concat comp_def)
  also have "concat (map ?r [0..<unat w]) = [0..<unat n]"
    using w by (intro cover_mk_task) simp
  finally show ?thesis
    using pi_approx_ordered [OF perm, of A n w] by (simp add: Let_def dx_def)
qed

text \<open>
  Claim C2, amended. For \<open>1 \<le> W1 \<le> N\<close> and \<open>1 \<le> W2 \<le> N\<close> the two runs add the same \<open>N\<close>
  terms in the same ascending order and differ only in the grouping of the additions: over
  any arithmetic whose addition is associative with \<open>0.0\<close> as neutral element (exact
  arithmetic, for one) the estimates for \<open>(N, W1)\<close> and \<open>(N, W2)\<close> are equal, whatever the
  order in which the threads finish. Over binary64 they need not be (see below).
\<close>

theorem estimate_independent_if_associative:
  assumes "\<And>a b c. fadd A (fadd A a b) c = fadd A a (fadd A b c)"
    and "\<And>a. fadd A (flit A 0) a = a" and "\<And>a. fadd A a (flit A 0) = a"
    and "\<And>ts. mset (sched1 ts) = mset ts" and "\<And>ts. mset (sched2 ts) = mset ts"
    and "1 \<le> unat W1" and "unat W1 \<le> unat N" and "1 \<le> unat W2" and "unat W2 \<le> unat N"
  shows "pi_approx A sched1 N W1 = pi_approx A sched2 N W2"
  by (simp add: pi_approx_sequential [OF assms(1,2,3,4) assms(6)]
      pi_approx_sequential [OF assms(1,2,3,5) assms(8)])

theorem estimate_independent_if_associative_witness:
  "pi_approx exact_ops rev 5 1 = pi_approx exact_ops id 5 3"
  by (rule estimate_independent_if_associative) (simp_all add: exact_ops_def)

text \<open>
  Claim C2 as stated fails over binary64: for \<open>N = 5\<close> the estimates with one worker and with
  three workers differ in the last bit (\<open>0x1.928cee431e923p+1\<close> and \<open>0x1.928cee431e924p+1\<close>).
\<close>

theorem estimate_depends_on_workers:
  "pi_approx binary64 id 5 1 = Some (Finite (7081743474616611 / 2251799813685248))
   \<and> pi_approx binary64 id 5 3 = Some (Finite (1770435868654153 / 562949953421312))
   \<and> pi_approx binary64 id 5 1 \<noteq> pi_approx binary64 id 5 3"
  by (simp add: estimates_5)

section \<open>A single rectangle\<close>

lemma clamp_threads_1:
  assumes "w \<noteq> 0"
  shows "clamp_threads 1 w = 1"
proof -
  from assms have "1 \<le> unat w" by (simp add: unat_gt_0 Suc_le_eq)
  then have "unat (clamp_threads 1 w) = unat (1 :: u32)" by (simp add: unat_clamp_threads)
  then show ?thesis by (simp only: word_unat_eq_iff)
qed

text \<open>
  Claim C7, amended. For \<open>N = 1\<close> and any accepted worker count the effective count is clamped
  to \<open>1\<close>: one thread is created, \<open>dx = 1\<close>, the midpoint is \<open>x = 0.5\<close>, and the printed estimate
  is the integrand at that midpoint times \<open>dx\<close>, the double nearest to
  \<open>4 / (1 + 0.5\<^sup>2) = 4 / 1.25 = 3.2\<close> (\<open>0x1.999999999999ap+1\<close>): in the expression of the
  specification \<open>0.25\<close> is \<open>x\<^sup>2\<close>, not \<open>x\<close>.
\<close>

theorem single_rectangle:
  assumes "\<And>ts. mset (sched ts) = mset ts"
    and "parse_n argv = Inr 1"
    and "parse_num_threads hardware_concurrency argv = Inr w"
  shows "clamp_threads 1 w = 1
     \<and> (\<exists>r. main_model binary64 sched hardware_concurrency elapsed argv = Some r
          \<and> status r = 0 \<and> length (threads r) = 1
          \<and> cout r ! 7 = Fixed12 (Finite (3602879701896397 / 1125899906842624)))
     \<and> fdiv binary64 (flit binary64 1) (of_u64 binary64 1) = Finite 1
     \<and> midpoint binary64 (Finite 1) 0 = Finite (1 / 2)
     \<and> fmul binary64 (integrand binary64 (Finite 1) 0) (Finite 1)
         = Finite (3602879701896397 / 1125899906842624)
     \<and> rnd (4 / (1 + (1 / 2)\<^sup>2)) = Finite (3602879701896397 / 1125899906842624)"
proof -
  have cl: "clamp_threads 1 w = 1"
    using assms(3) by (intro clamp_threads_1 parse_num_threads_nonzero)
  have ks: "spawn 1 1 (Finite 1) 0 = [mk_task 1 1 (Finite 1) 0]"
    by (simp add: spawn_eq)
  from main_model_computes [OF assms, where A = binary64 and elapsed = elapsed]
  obtain r where r: "main_model binary64 sched hardware_concurrency elapsed argv = Some r"
    "status r = 0" "threads r = spawn 1 1 (Finite 1) 0"
    "partial_sums r = map (local_sum binary64) (threads r)"
    "cout r ! 7 = Fixed12 (fmul binary64 (foldl (fadd binary64) (flit binary64 0) (partial_sums r))
        (fdiv binary64 (flit binary64 1) (of_u64 binary64 1)))"
    by (auto simp: cl dx_1)
  have len: "length (threads r) = 1" by (simp add: r(3) ks)
  have out: "cout r ! 7 = Fixed12 (Finite (3602879701896397 / 1125899906842624))"
    by (simp add: r(5) r(4) r(3) ks dx_1 local_sum_1 binary64_simps
        rnd_value_1 rnd_value_2 rnd_value_3 rnd_value_4 rnd_value_5 rnd_value_6 rnd_value_7 rnd_value_8)
  have prod: "fmul binary64 (integrand binary64 (Finite 1) 0) (Finite 1)
      = Finite (3602879701896397 / 1125899906842624)"
    by (simp add: integrand_1 binary64_simps
        rnd_value_1 rnd_value_2 rnd_value_3 rnd_value_4 rnd_value_5 rnd_value_6 rnd_value_7 rnd_value_8)
  have exact: "rnd (4 / (1 + (1 / 2)\<^sup>2)) = Finite (3602879701896397 / 1125899906842624)"
    by (simp add: power2_eq_square rnd_value_7)
  from cl r(1,2) len out dx_1 midpoint_1 prod exact show ?thesis by blast
qed

theorem single_rectangle_witness:
  "parse_n [''pi'', ''1'', ''8''] = Inr 1
   \<and> parse_num_threads 4 [''pi'', ''1'', ''8''] = Inr 8
   \<and> clamp_threads 1 8 = 1
   \<and> map_option status (main_model binary64 rev 4 (Finite 0) [''pi'', ''1'', ''8'']) = Some 0
   \<and> map_option (length \<circ> threads) (main_model binary64 rev 4 (Finite 0) [''pi'', ''1'', ''8''])
       = Some 1"
proof -
  have n: "parse_n [''pi'', ''1'', ''8''] = Inr 1"
    by (simp add: parse_n_def extract_defs)
  have w: "parse_num_threads 4 [''pi'', ''1'', ''8''] = Inr 8"
    by (simp add: parse_num_threads_def extract_defs)
  have "mset (rev ts) = mset ts" for ts :: "double task list" by simp
  from single_rectangle [OF this n w, of "Finite 0"] n w show ?thesis by auto
qed

text \<open>
  Claim C7 as stated fails: the estimate for \<open>N = 1\<close> is not the value of
  \<open>4.0 / (1.0 + 0.25 * 0.25)\<close>, which is \<open>0x1.e1e1e1e1e1e1ep+1\<close> (about \<open>3.76\<close>).
\<close>

theorem single_rectangle_not_spec_value:
  "pi_approx binary64 id 1 1 = Some (Finite (3602879701896397 / 1125899906842624))
   \<and> fdiv binary64 (flit binary64 4)
        (fadd binary64 (flit binary64 1) (fmul binary64 (flit binary64 (1 / 4)) (flit binary64 (1 / 4))))
      = Finite (4238682002231055 / 1125899906842624)
   \<and> pi_approx binary64 id 1 1
      \<noteq> Some (fdiv binary64 (flit binary64 4)
          (fadd binary64 (flit binary64 1)
             (fmul binary64 (flit binary64 (1 / 4)) (flit binary64 (1 / 4)))))"
  by (simp add: estimate_1 binary64_simps
      rnd_value_4 rnd_value_9 rnd_value_1 rnd_value_10 rnd_value_6 rnd_value_11)

section \<open>A negative step count\<close>





end
